theory Spec2Isabelle
  imports Complex_Main
begin

section \<open>Integers\<close>

text \<open>
  The dimension \<open>n\<close>, the number \<open>m\<close> of replicates, the loop variables and the
  array indices are \<^verbatim>\<open>int\<close> in the C code and natural numbers here. The code
  allocates \<open>n * n\<close> cells, so \<open>n * n\<close> fits an \<^verbatim>\<open>int\<close> and no index or count
  overflows. The sizes of the blocks are the exception: they are computed from
  \<open>n + 1\<close>, whose square may overflow while \<open>n * n\<close> fits, and the model computes
  them with the checked operations below. A difference such as \<open>n - 2\<close> or \<open>n - 3\<close> that is negative in C is the
  upper bound of a loop that starts at a value that is not negative: the loop is
  empty in C, and it is empty here, where the difference is 0. Every other difference
  is taken where it is not negative as long as \<open>1 \<le> n\<close>. The breakpoint marks, which
  the code compares with 1, are of type \<open>int\<close>.
\<close>

text \<open>
  An \<^verbatim>\<open>int\<close> has 32 bits. The overflow of a signed operation is undefined in C: a
  checked operation on values that are not negative fails where the result is above
  \<^verbatim>\<open>INT_MAX\<close>.
\<close>

definition INT_MAX :: nat where
  "INT_MAX = 2147483647"

definition int_add :: "nat \<Rightarrow> nat \<Rightarrow> nat option" where
  "int_add a b = (if a + b \<le> INT_MAX then Some (a + b) else None)"

definition int_mul :: "nat \<Rightarrow> nat \<Rightarrow> nat option" where
  "int_mul a b = (if a * b \<le> INT_MAX then Some (a * b) else None)"

section \<open>Double-precision values\<close>

text \<open>
  The C code computes with \<^verbatim>\<open>double\<close> and relies on three special values: the
  not-a-number \<^verbatim>\<open>NAN\<close> that marks likelihood entries which were not computed,
  \<^verbatim>\<open>-INFINITY\<close> as the start value of every maximum, and (through overflow and
  division by zero) \<^verbatim>\<open>+INFINITY\<close>. The model keeps these three values apart from
  the finite ones. A finite value is an exact real number: rounding, overflow of a
  finite result to an infinity, and the sign of zero are not modelled. Every ordered
  comparison with \<open>NaN\<close> is false and every arithmetic operation with a
  \<open>NaN\<close> operand gives \<open>NaN\<close>, as in IEEE 754.
\<close>

datatype double = NaN | NInf | Fin real | PInf

fun dadd :: "double \<Rightarrow> double \<Rightarrow> double" where
  "dadd NaN y = NaN"
| "dadd x NaN = NaN"
| "dadd PInf NInf = NaN"
| "dadd NInf PInf = NaN"
| "dadd PInf y = PInf"
| "dadd x PInf = PInf"
| "dadd NInf y = NInf"
| "dadd x NInf = NInf"
| "dadd (Fin x) (Fin y) = Fin (x + y)"

fun dlt :: "double \<Rightarrow> double \<Rightarrow> bool" where
  "dlt NaN y = False"
| "dlt x NaN = False"
| "dlt x NInf = False"
| "dlt NInf y = True"
| "dlt PInf y = False"
| "dlt x PInf = True"
| "dlt (Fin x) (Fin y) = (x < y)"

definition dgt :: "double \<Rightarrow> double \<Rightarrow> bool" where
  "dgt x y = dlt y x"


text \<open>
  Negation, subtraction, multiplication, division and the exponential. A product of
  an infinity and zero, a difference of equal infinities, a quotient of two
  infinities and \<open>0 / 0\<close> are \<open>NaN\<close>. A value other than zero divided by zero is
  the infinity of the sign of the dividend: the divisor is taken as \<open>+0\<close>, which is
  what a difference of two equal finite values gives in the default rounding mode.
\<close>

fun dneg :: "double \<Rightarrow> double" where
  "dneg NaN = NaN"
| "dneg NInf = PInf"
| "dneg PInf = NInf"
| "dneg (Fin x) = Fin (- x)"

definition dsub :: "double \<Rightarrow> double \<Rightarrow> double" where
  "dsub x y = dadd x (dneg y)"

fun dmul :: "double \<Rightarrow> double \<Rightarrow> double" where
  "dmul NaN y = NaN"
| "dmul x NaN = NaN"
| "dmul (Fin x) (Fin y) = Fin (x * y)"
| "dmul PInf y = (if dlt (Fin 0) y then PInf else if dlt y (Fin 0) then NInf else NaN)"
| "dmul NInf y = (if dlt (Fin 0) y then NInf else if dlt y (Fin 0) then PInf else NaN)"
| "dmul x PInf = (if dlt (Fin 0) x then PInf else if dlt x (Fin 0) then NInf else NaN)"
| "dmul x NInf = (if dlt (Fin 0) x then NInf else if dlt x (Fin 0) then PInf else NaN)"

fun ddiv :: "double \<Rightarrow> double \<Rightarrow> double" where
  "ddiv NaN y = NaN"
| "ddiv x NaN = NaN"
| "ddiv (Fin x) (Fin y) =
     (if y = 0 then (if x = 0 then NaN else if 0 < x then PInf else NInf) else Fin (x / y))"
| "ddiv (Fin x) y = Fin 0"
| "ddiv PInf (Fin y) = (if 0 \<le> y then PInf else NInf)"
| "ddiv NInf (Fin y) = (if 0 \<le> y then NInf else PInf)"
| "ddiv x y = NaN"

fun dexp :: "double \<Rightarrow> double" where
  "dexp NaN = NaN"
| "dexp NInf = Fin 0"
| "dexp PInf = PInf"
| "dexp (Fin x) = Fin (exp x)"

text \<open>The finite values, and the real number that a finite value stands for.\<close>

fun is_fin :: "double \<Rightarrow> bool" where
  "is_fin (Fin x) = True"
| "is_fin x = False"

fun fin_val :: "double \<Rightarrow> real" where
  "fin_val (Fin x) = x"
| "fin_val x = 0"

section \<open>Loops and array reads\<close>

text \<open>
  A loop whose body may fail: the loop stops at the first failure. \<open>None\<close> stands
  for an access outside an array (undefined behaviour in C) and, further down, also
  for a loop that does not terminate.
\<close>

fun for_each :: "nat list \<Rightarrow> (nat \<Rightarrow> 's \<Rightarrow> 's option) \<Rightarrow> 's \<Rightarrow> 's option" where
  "for_each [] body s = Some s"
| "for_each (x # xs) body s = (case body x s of None \<Rightarrow> None | Some t \<Rightarrow> for_each xs body t)"

text \<open>Reading the cell \<open>i\<close> of an array.\<close>

definition rd :: "'a list \<Rightarrow> nat \<Rightarrow> 'a option" where
  "rd xs i = (if i < length xs then Some (xs ! i) else None)"


section \<open>The fitting routine \<^verbatim>\<open>ml_ab\<close>\<close>

definition TOLERANCE :: double where
  "TOLERANCE = Fin (1 / 1000000)"

text \<open>
  The local variables \<^verbatim>\<open>a\<close>, \<^verbatim>\<open>b\<close>, \<^verbatim>\<open>da\<close>, \<^verbatim>\<open>db\<close>, \<^verbatim>\<open>f\<close> and \<^verbatim>\<open>g\<close> of
  \<^verbatim>\<open>ml_ab\<close>, which its nested function \<^verbatim>\<open>recompute_fg\<close> reads and writes. The
  fields carry the prefix \<open>ml_\<close>.
\<close>

record ml_state =
  ml_a :: double
  ml_b :: double
  ml_da :: double
  ml_db :: double
  ml_f :: double
  ml_g :: double

text \<open>The nested function \<^verbatim>\<open>recompute_fg\<close> (lines 38 to 45).\<close>

definition recompute_fg :: "double list \<Rightarrow> double list \<Rightarrow> nat \<Rightarrow> ml_state \<Rightarrow> ml_state option" where
  "recompute_fg k d n s =
     for_each [0..<n]
       (\<lambda>i t. case rd d i of
                 None \<Rightarrow> None
               | Some di \<Rightarrow>
                   (case rd k i of
                      None \<Rightarrow> None
                    | Some ki \<Rightarrow>
                        (let tmp = dsub (dexp (dadd (dadd (ml_a t) (ml_da t))
                                                    (dmul (dadd (ml_b t) (ml_db t)) di))) ki
                         in Some (t\<lparr>ml_f := dadd (ml_f t) tmp,
                                     ml_g := dadd (ml_g t) (dmul tmp di)\<rparr>))))
       (s\<lparr>ml_f := Fin 0, ml_g := Fin 0\<rparr>)"

text \<open>
  The derivatives \<^verbatim>\<open>dfda\<close>, \<^verbatim>\<open>dgda\<close> and \<^verbatim>\<open>dgdb\<close> (lines 53 to 59), in this order.
\<close>

definition derivatives :: "double list \<Rightarrow> nat \<Rightarrow> ml_state \<Rightarrow> (double \<times> double \<times> double) option" where
  "derivatives d n s =
     for_each [0..<n]
       (\<lambda>i (dfda, dgda, dgdb). case rd d i of
                 None \<Rightarrow> None
               | Some di \<Rightarrow>
                   (let tmp = dexp (dadd (ml_a s) (dmul (ml_b s) di))
                    in Some (dadd dfda tmp, dadd dgda (dmul tmp di),
                             dadd dgdb (dmul (dmul tmp di) di))))
       (Fin 0, Fin 0, Fin 0)"

text \<open>The squared norm \<^verbatim>\<open>f*f + g*g\<close> of the gradient.\<close>

definition gradient :: "ml_state \<Rightarrow> double" where
  "gradient s = dadd (dmul (ml_f s) (ml_f s)) (dmul (ml_g s) (ml_g s))"

text \<open>
  The inner loop (lines 68 to 72) halves the step while the gradient is larger than
  before. Nothing bounds the number of its rounds, nor of those of the outer loop, so
  both are partial functions: \<open>None\<close> is a run that does not return (or that reads
  outside \<^verbatim>\<open>k\<close> or \<^verbatim>\<open>d\<close>).
\<close>

partial_function (option) traceback ::
  "double list \<Rightarrow> double list \<Rightarrow> nat \<Rightarrow> double \<Rightarrow> ml_state \<Rightarrow> ml_state option" where
  "traceback k d n oldgrad s =
     (if dgt (gradient s) oldgrad
      then Option.bind
             (recompute_fg k d n (s\<lparr>ml_da := ddiv (ml_da s) (Fin 2), ml_db := ddiv (ml_db s) (Fin 2)\<rparr>))
             (traceback k d n oldgrad)
      else Some s)"

text \<open>The Newton-Raphson step (lines 52 to 66) up to the first \<^verbatim>\<open>recompute_fg\<close>.\<close>

definition newton_step :: "double list \<Rightarrow> double list \<Rightarrow> nat \<Rightarrow> ml_state \<Rightarrow> ml_state option" where
  "newton_step k d n s =
     (case derivatives d n s of
        None \<Rightarrow> None
      | Some (dfda, dgda, dgdb) \<Rightarrow>
          (let dfdb = dgda;
               denom = dsub (dmul dfdb dgda) (dmul dfda dgdb);
               da = ddiv (dsub (dmul (ml_f s) dgdb) (dmul (ml_g s) dfdb)) denom;
               db = ddiv (dsub (dmul (ml_g s) dfda) (dmul (ml_f s) dgda)) denom
           in recompute_fg k d n (s\<lparr>ml_da := da, ml_db := db\<rparr>)))"

text \<open>The outer loop (lines 50 to 78).\<close>

partial_function (option) newton_raphson ::
  "double list \<Rightarrow> double list \<Rightarrow> nat \<Rightarrow> ml_state \<Rightarrow> ml_state option" where
  "newton_raphson k d n s =
     (if dgt (gradient s) TOLERANCE
      then Option.bind (newton_step k d n s)
             (\<lambda>s1. Option.bind (traceback k d n (gradient s) s1)
                (\<lambda>s2. newton_raphson k d n
                         (s2\<lparr>ml_a := dadd (ml_a s2) (ml_da s2), ml_b := dadd (ml_b s2) (ml_db s2)\<rparr>)))
      else Some s)"

text \<open>The log-likelihood (lines 81 to 84).\<close>

definition log_likelihood :: "double list \<Rightarrow> double list \<Rightarrow> nat \<Rightarrow> ml_state \<Rightarrow> double option" where
  "log_likelihood k d n s =
     for_each [0..<n]
       (\<lambda>i llik. case rd d i of
                 None \<Rightarrow> None
               | Some di \<Rightarrow>
                   (case rd k i of
                      None \<Rightarrow> None
                    | Some ki \<Rightarrow>
                        Some (dadd llik
                                (dadd (dexp (dadd (ml_a s) (dmul (ml_b s) di)))
                                      (dmul ki (dadd (ml_a s) (dmul (ml_b s) di)))))))
       (Fin 0)"

text \<open>
  The function: the pair \<^verbatim>\<open>ab\<close> is read at the start and written at the end, and the
  result is the log-likelihood together with the new content of \<^verbatim>\<open>ab\<close>.
\<close>

definition ml_ab ::
  "double list \<Rightarrow> double list \<Rightarrow> double \<times> double \<Rightarrow> nat \<Rightarrow> (double \<times> double \<times> double) option" where
  "ml_ab k d ab n =
     (case recompute_fg k d n
             \<lparr>ml_a = fst ab, ml_b = snd ab, ml_da = Fin 0, ml_db = Fin 0,
              ml_f = Fin 0, ml_g = Fin 0\<rparr> of
        None \<Rightarrow> None
      | Some s0 \<Rightarrow>
          (case newton_raphson k d n s0 of
             None \<Rightarrow> None
           | Some s \<Rightarrow>
               (case log_likelihood k d n s of
                  None \<Rightarrow> None
                | Some llik \<Rightarrow> Some (llik, ml_a s, ml_b s))))"

subsection \<open>The score equations of the design\<close>

text \<open>
  The two score functions \<open>F(a, b) = \<Sum> (exp (a + b d\<^sub>i) - k\<^sub>i)\<close> and
  \<open>G(a, b) = \<Sum> (exp (a + b d\<^sub>i) - k\<^sub>i) d\<^sub>i\<close> over the first \<open>n\<close> observations,
  summed from the first to the last.
\<close>

definition score_F :: "double list \<Rightarrow> double list \<Rightarrow> nat \<Rightarrow> double \<Rightarrow> double \<Rightarrow> double option" where
  "score_F k d n a b =
     for_each [0..<n]
       (\<lambda>i acc. case rd d i of
                 None \<Rightarrow> None
               | Some di \<Rightarrow>
                   (case rd k i of
                      None \<Rightarrow> None
                    | Some ki \<Rightarrow> Some (dadd acc (dsub (dexp (dadd a (dmul b di))) ki))))
       (Fin 0)"

definition score_G :: "double list \<Rightarrow> double list \<Rightarrow> nat \<Rightarrow> double \<Rightarrow> double \<Rightarrow> double option" where
  "score_G k d n a b =
     for_each [0..<n]
       (\<lambda>i acc. case rd d i of
                 None \<Rightarrow> None
               | Some di \<Rightarrow>
                   (case rd k i of
                      None \<Rightarrow> None
                    | Some ki \<Rightarrow>
                        Some (dadd acc (dmul (dsub (dexp (dadd a (dmul b di))) ki) di))))
       (Fin 0)"

text \<open>
  The log-likelihood of the design: the sum of \<open>exp (a + b d\<^sub>i) + k\<^sub>i (a + b d\<^sub>i)\<close>
  over the first \<open>n\<close> observations.
\<close>

definition loglik_sum :: "double list \<Rightarrow> double list \<Rightarrow> nat \<Rightarrow> double \<Rightarrow> double \<Rightarrow> double option" where
  "loglik_sum k d n a b =
     for_each [0..<n]
       (\<lambda>i acc. case rd d i of
                 None \<Rightarrow> None
               | Some di \<Rightarrow>
                   (case rd k i of
                      None \<Rightarrow> None
                    | Some ki \<Rightarrow>
                        Some (dadd acc (dadd (dexp (dadd a (dmul b di)))
                                             (dmul ki (dadd a (dmul b di)))))))
       (Fin 0)"

section \<open>The matrix segmenter \<^verbatim>\<open>break_in_blocks\<close>\<close>

text \<open>
  The argument \<^verbatim>\<open>blocks\<close> is an array of three pointers: \<^verbatim>\<open>blocks[0]\<close> is the top
  block, \<^verbatim>\<open>blocks[1]\<close> the triangular block and \<^verbatim>\<open>blocks[2]\<close> the bottom block.
  Each of them has its own write counter (\<^verbatim>\<open>top_counter\<close>, \<^verbatim>\<open>tri_counter\<close>,
  \<^verbatim>\<open>bot_counter\<close>). The state of a call keeps, next to the arrays and the counters, the
  list of the writes done so far: which array, which position of it, and which cell
  of the matrix was copied there. The code has no such list; it records the effect
  of the call so that properties of the writes can be stated.
\<close>

datatype region = Top | Tri | Bot

record 'a seg_state =
  bufs :: "region \<Rightarrow> 'a list"
  counter :: "region \<Rightarrow> nat"
  writes :: "(region \<times> nat \<times> nat) list"

text \<open>The statement \<^verbatim>\<open>blk[blk_counter++] = mat[src]\<close>.\<close>

definition put :: "region \<Rightarrow> 'a list \<Rightarrow> nat \<Rightarrow> 'a seg_state \<Rightarrow> 'a seg_state option" where
  "put r mat src s =
     (if src < length mat \<and> counter s r < length (bufs s r)
      then Some (s\<lparr>bufs := (bufs s)(r := (bufs s r)[counter s r := mat ! src]),
                   counter := (counter s)(r := counter s r + 1),
                   writes := writes s @ [(r, counter s r, src)]\<rparr>)
      else None)"

text \<open>One of the three loops over \<open>row\<close> (lines 112 to 124), for the column \<open>col\<close>.\<close>

definition fill :: "region \<Rightarrow> 'a list \<Rightarrow> nat \<Rightarrow> nat \<Rightarrow> nat list \<Rightarrow> 'a seg_state \<Rightarrow> 'a seg_state option" where
  "fill r mat n col rows s = for_each rows (\<lambda>row. put r mat (row + col * n)) s"

text \<open>The body of the loop over \<open>col\<close> (lines 110 to 126).\<close>

definition seg_column :: "'a list \<Rightarrow> nat \<Rightarrow> nat \<Rightarrow> nat \<Rightarrow> nat \<Rightarrow> 'a seg_state \<Rightarrow> 'a seg_state option" where
  "seg_column mat n i j col s =
     (case fill Top mat n col [0..<i] s of
        None \<Rightarrow> None
      | Some s1 \<Rightarrow>
          (case fill Tri mat n col [i..<col] s1 of
             None \<Rightarrow> None
           | Some s2 \<Rightarrow> fill Bot mat n col [j + 1..<n] s2))"

text \<open>The function: the counters start at 0 and the columns \<open>i\<close> to \<open>j\<close> are visited.\<close>

definition break_in_blocks ::
  "'a list \<Rightarrow> nat \<Rightarrow> nat \<Rightarrow> nat \<Rightarrow> (region \<Rightarrow> 'a list) \<Rightarrow> 'a seg_state option" where
  "break_in_blocks mat n i j blocks =
     for_each [i..<j + 1] (seg_column mat n i j)
       \<lparr>bufs = blocks, counter = (\<lambda>r. 0), writes = []\<rparr>"

text \<open>
  The sizes \<^verbatim>\<open>tadbit\<close> allocates for the three blocks (lines 316 to 323):
  \<^verbatim>\<open>(n+1)*(n+1)/4\<close> cells for the top and the bottom block and \<^verbatim>\<open>n*(n+1)/2\<close> cells
  for the triangular block, computed in \<^verbatim>\<open>int\<close> with the integer division of C. The
  product with \<^verbatim>\<open>sizeof(double)\<close> is taken in \<^verbatim>\<open>size_t\<close>, of 64 bits, and does not
  overflow.
\<close>

fun block_capacity :: "nat \<Rightarrow> region \<Rightarrow> nat option" where
  "block_capacity n Top =
     Option.bind (int_add n 1) (\<lambda>p. Option.bind (int_mul p p) (\<lambda>q. Some (q div 4)))"
| "block_capacity n Tri =
     Option.bind (int_add n 1) (\<lambda>p. Option.bind (int_mul n p) (\<lambda>q. Some (q div 2)))"
| "block_capacity n Bot =
     Option.bind (int_add n 1) (\<lambda>p. Option.bind (int_mul p p) (\<lambda>q. Some (q div 4)))"

text \<open>
  The room that the segmentations of an \<open>n\<close> by \<open>n\<close> matrix need in the three blocks,
  as natural numbers.
\<close>

fun room :: "nat \<Rightarrow> region \<Rightarrow> nat" where
  "room n Top = (n + 1) * (n + 1) div 4"
| "room n Tri = n * (n + 1) div 2"
| "room n Bot = (n + 1) * (n + 1) div 4"

text \<open>
  The three regions of the data model, as the lists of matrix cells \<open>row + col * n\<close>
  in the order of the columns: the top block has the rows \<open>[0, i)\<close>, the triangular
  block the rows \<open>[i, col)\<close> and the bottom block the rows \<open>(j, n)\<close> of every column
  \<open>col\<close> in \<open>[i, j]\<close>.
\<close>

fun region_rows :: "region \<Rightarrow> nat \<Rightarrow> nat \<Rightarrow> nat \<Rightarrow> nat \<Rightarrow> nat list" where
  "region_rows Top n i j col = [0..<i]"
| "region_rows Tri n i j col = [i..<col]"
| "region_rows Bot n i j col = [j + 1..<n]"

definition region_cells :: "region \<Rightarrow> nat \<Rightarrow> nat \<Rightarrow> nat \<Rightarrow> nat list" where
  "region_cells r n i j =
     concat (map (\<lambda>col. map (\<lambda>row. row + col * n) (region_rows r n i j col)) [i..<j + 1])"

definition region_values :: "'a list \<Rightarrow> region \<Rightarrow> nat \<Rightarrow> nat \<Rightarrow> nat \<Rightarrow> 'a list" where
  "region_values mat r n i j = map (\<lambda>c. mat ! c) (region_cells r n i j)"

text \<open>The number of values the contract of the segmenter gives for each block.\<close>

fun region_count :: "region \<Rightarrow> nat \<Rightarrow> nat \<Rightarrow> nat \<Rightarrow> nat" where
  "region_count Top n i j = i * (j - i + 1)"
| "region_count Tri n i j = (j - i) * (j - i + 1) div 2"
| "region_count Bot n i j = (n - j - 1) * (j - i + 1)"

section \<open>The candidate filter \<^verbatim>\<open>remove_non_local_maxima\<close>\<close>

text \<open>
  The arrays and parameters that the likelihood computations of \<^verbatim>\<open>tadbit\<close> and of
  \<^verbatim>\<open>remove_non_local_maxima\<close> work on: the array of log-likelihoods, the blocks
  \<^verbatim>\<open>d_blk\<close> of the distance matrix, the blocks \<^verbatim>\<open>k_blk\<close> of the current replicate and
  the three parameter pairs \<^verbatim>\<open>ab[0]\<close>, \<^verbatim>\<open>ab[1]\<close>, \<^verbatim>\<open>ab[2]\<close>. The fields carry the
  prefix \<open>t_\<close>.
\<close>

record fit_state =
  t_llik :: "double list"
  t_d_blk :: "region \<Rightarrow> double list"
  t_k_blk :: "region \<Rightarrow> double list"
  t_ab :: "region \<Rightarrow> double \<times> double"

text \<open>An array of \<open>len\<close> cells that has not been initialised: its content is arbitrary.\<close>

definition uninitialised :: "(nat \<Rightarrow> 'a) \<Rightarrow> nat \<Rightarrow> 'a list" where
  "uninitialised junk len = map junk [0..<len]"

text \<open>
  The header of the function names its fourth parameter \<^verbatim>\<open>k\<close> and declares a
  local \<^verbatim>\<open>k\<close> again, its loops run up to \<^verbatim>\<open>m\<close>, and the call in \<^verbatim>\<open>tadbit\<close> passes
  no such argument: the model takes the number \<open>m\<close> of replicates as this parameter.

  The body of the loop over the replicates in the forward scan (lines 158 to 163):
  the cut is \<open>(0, j)\<close>, and the triangular and the bottom block are fitted.
\<close>

definition forward_fit :: "double list list \<Rightarrow> nat \<Rightarrow> nat \<Rightarrow> nat \<Rightarrow> fit_state \<Rightarrow> fit_state option" where
  "forward_fit obs n j k s =
     (case rd obs k of
        None \<Rightarrow> None
      | Some mat \<Rightarrow>
     (case break_in_blocks mat n 0 j (t_k_blk s) of
        None \<Rightarrow> None
      | Some seg \<Rightarrow>
     (case ml_ab (bufs seg Tri) (t_d_blk s Tri) (t_ab s Tri) (j * (j + 1) div 2) of
        None \<Rightarrow> None
      | Some (tri_fit, ab1) \<Rightarrow>
     (case ml_ab (bufs seg Bot) (t_d_blk s Bot) (t_ab s Bot) ((n - j - 1) * (j + 1)) of
        None \<Rightarrow> None
      | Some (bot_fit, ab2) \<Rightarrow>
          Some (s\<lparr>t_k_blk := bufs seg,
                  t_ab := (t_ab s)(Tri := ab1, Bot := ab2),
                  t_llik := (t_llik s)[j := dadd (t_llik s ! j)
                                               (dadd tri_fit (ddiv bot_fit (Fin 2)))]\<rparr>)))))"

text \<open>The body of the forward scan (lines 152 to 165).\<close>

definition forward_scan :: "double list list \<Rightarrow> double list \<Rightarrow> nat \<Rightarrow> nat \<Rightarrow> nat \<Rightarrow> fit_state \<Rightarrow> fit_state option" where
  "forward_scan obs dis n m j s =
     (case break_in_blocks dis n 0 j (t_d_blk s) of
        None \<Rightarrow> None
      | Some seg \<Rightarrow>
          for_each [0..<m] (forward_fit obs n j)
            (s\<lparr>t_d_blk := bufs seg, t_llik := (t_llik s)[j := Fin 0]\<rparr>))"

text \<open>
  The body of the loop over the replicates in the backward scan (lines 173 to 177):
  the cut is \<open>(j, n - 1)\<close>, and the top and the triangular block are fitted, with
  the lengths the code passes.
\<close>

definition backward_fit :: "double list list \<Rightarrow> nat \<Rightarrow> nat \<Rightarrow> nat \<Rightarrow> fit_state \<Rightarrow> fit_state option" where
  "backward_fit obs n j k s =
     (case rd obs k of
        None \<Rightarrow> None
      | Some mat \<Rightarrow>
     (case break_in_blocks mat n j (n - 1) (t_k_blk s) of
        None \<Rightarrow> None
      | Some seg \<Rightarrow>
     (case ml_ab (bufs seg Top) (t_d_blk s Top) (t_ab s Top) (j * (n - j + 1)) of
        None \<Rightarrow> None
      | Some (top_fit, ab0) \<Rightarrow>
     (case ml_ab (bufs seg Tri) (t_d_blk s Tri) (t_ab s Tri) ((n - j) * (n - j + 1) div 2) of
        None \<Rightarrow> None
      | Some (tri_fit, ab1) \<Rightarrow>
          Some (s\<lparr>t_k_blk := bufs seg,
                  t_ab := (t_ab s)(Top := ab0, Tri := ab1),
                  t_llik := (t_llik s)[j - 1 := dadd (t_llik s ! (j - 1))
                                                   (dadd (ddiv top_fit (Fin 2)) tri_fit)]\<rparr>)))))"

text \<open>The body of the backward scan (lines 168 to 179).\<close>

definition backward_scan :: "double list list \<Rightarrow> double list \<Rightarrow> nat \<Rightarrow> nat \<Rightarrow> nat \<Rightarrow> fit_state \<Rightarrow> fit_state option" where
  "backward_scan obs dis n m j s =
     (case break_in_blocks dis n j (n - 1) (t_d_blk s) of
        None \<Rightarrow> None
      | Some seg \<Rightarrow> for_each [0..<m] (backward_fit obs n j) (s\<lparr>t_d_blk := bufs seg\<rparr>))"

text \<open>
  The marking of the candidates (lines 181 to 189): position \<open>n - 1\<close> is set to 1,
  every other position to 0, and then the strict local maxima among the positions 3
  to \<open>n - 2\<close> are set to 1.
\<close>

definition mark_local_maxima :: "double list \<Rightarrow> nat \<Rightarrow> int list \<Rightarrow> int list" where
  "mark_local_maxima llik n bkpts =
     (let b1 = bkpts[n - 1 := 1];
          b2 = fold (\<lambda>i b. b[i := 0]) [0..<n - 1] b1
      in fold (\<lambda>i b. if dgt (llik ! i) (llik ! (i - 1)) \<and> dgt (llik ! i) (llik ! (i + 1))
                      then b[i := 1] else b)
           [3..<n - 1] b2)"

text \<open>
  The function. Its array \<^verbatim>\<open>llik\<close> of \<open>n\<close> scores is not initialised, and its
  parameter pairs start at 0. It returns the marks; the blocks it has written are
  those of the caller.
\<close>

definition remove_non_local_maxima ::
  "double list list \<Rightarrow> double list \<Rightarrow> nat \<Rightarrow> nat \<Rightarrow> (region \<Rightarrow> double list) \<Rightarrow>
   (region \<Rightarrow> double list) \<Rightarrow> int list \<Rightarrow> (nat \<Rightarrow> double) \<Rightarrow>
   (int list \<times> (region \<Rightarrow> double list) \<times> (region \<Rightarrow> double list)) option" where
  "remove_non_local_maxima obs dis n m k_blk d_blk bkpts junk =
     (case for_each [2..<n] (forward_scan obs dis n m)
             \<lparr>t_llik = uninitialised junk n, t_d_blk = d_blk, t_k_blk = k_blk,
              t_ab = (\<lambda>r. (Fin 0, Fin 0))\<rparr> of
        None \<Rightarrow> None
      | Some s1 \<Rightarrow>
          (case for_each [3..<n - 3] (backward_scan obs dis n m) s1 of
             None \<Rightarrow> None
           | Some s2 \<Rightarrow> Some (mark_local_maxima (t_llik s2) n bkpts, t_k_blk s2, t_d_blk s2)))"

section \<open>The dynamic program \<^verbatim>\<open>get_breakpoints\<close>\<close>

text \<open>
  The local variables of \<^verbatim>\<open>get_breakpoints\<close>. The two breakpoint lists are
  flat \<open>n * n\<close> arrays of \<^verbatim>\<open>int\<close>; the cell \<open>j + i * n\<close> belongs to the
  solution ending at \<open>j\<close> and says whether position \<open>i\<close> is a breakpoint of it.
\<close>

record dp_state =
  nbreaks :: nat
  new_breakpoint :: nat
  new_llik :: "double list"
  old_llik :: "double list"
  new_bkpt_list :: "int list"
  old_bkpt_list :: "int list"
  new_full_llik :: double
  old_full_llik :: double

text \<open>A loop that copies the cells \<open>idxs\<close> of one array into another, one by one.\<close>

definition copy_cells :: "nat list \<Rightarrow> 'a list \<Rightarrow> 'a list \<Rightarrow> 'a list" where
  "copy_cells idxs src dst = fold (\<lambda>x d. d[x := src ! x]) idxs dst"

text \<open>The index order of \<^verbatim>\<open>for (i ...) for (j ...) a[i+j*n]\<close>.\<close>

definition all_cells :: "nat \<Rightarrow> nat list" where
  "all_cells n = concat (map (\<lambda>i. map (\<lambda>j. i + j * n) [0..<n]) [0..<n])"

text \<open>
  The body of the loop over the start point \<open>i\<close> (lines 244 to 249): the candidate
  score is compared with the best score so far for the end point \<open>j\<close>.
\<close>

definition dp_try :: "double list \<Rightarrow> nat \<Rightarrow> nat \<Rightarrow> nat \<Rightarrow> dp_state \<Rightarrow> dp_state" where
  "dp_try llik n j i s =
     (let tmp = dadd (old_llik s ! (i - 1)) (llik ! (i + j * n))
      in if dgt tmp (new_llik s ! j)
         then s\<lparr>new_llik := (new_llik s)[j := tmp], new_breakpoint := i - 1\<rparr>
         else s)"

text \<open>The update of the breakpoint list of end point \<open>j\<close> (lines 252 to 258).\<close>

definition dp_update_list :: "nat \<Rightarrow> nat \<Rightarrow> dp_state \<Rightarrow> dp_state" where
  "dp_update_list n j s =
     (if dgt (new_llik s ! j) NInf
      then let t = fold (\<lambda>i t. t\<lparr>new_bkpt_list :=
                      (new_bkpt_list t)[j + i * n := old_bkpt_list t ! (new_breakpoint t + i * n)]\<rparr>)
                    [0..<n] s
           in t\<lparr>new_bkpt_list := (new_bkpt_list t)[j + new_breakpoint t * n := 1]\<rparr>
      else s)"

text \<open>The body of the loop over the end point \<open>j\<close> (lines 238 to 260).\<close>

definition dp_end_point :: "double list \<Rightarrow> nat \<Rightarrow> nat \<Rightarrow> dp_state \<Rightarrow> dp_state" where
  "dp_end_point llik n j s =
     dp_update_list n j
       (fold (dp_try llik n j) [3 * nbreaks s..<j - 1] (s\<lparr>new_llik := (new_llik s)[j := NInf]\<rparr>))"

text \<open>One round of the \<^verbatim>\<open>while\<close> loop (lines 229 to 267).\<close>

definition dp_round :: "double list \<Rightarrow> nat \<Rightarrow> dp_state \<Rightarrow> dp_state" where
  "dp_round llik n s =
     (let s1 = s\<lparr>nbreaks := nbreaks s + 1\<rparr>;
          s2 = s1\<lparr>old_bkpt_list := copy_cells (all_cells n) (new_bkpt_list s1) (old_bkpt_list s1)\<rparr>;
          s3 = fold (dp_end_point llik n) [3 * nbreaks s2 + 2..<n] s2;
          s4 = s3\<lparr>old_full_llik := new_full_llik s3\<rparr>;
          s5 = s4\<lparr>new_full_llik := new_llik s4 ! (n - 1)\<rparr>
      in s5\<lparr>old_llik := copy_cells [0..<n] (new_llik s5) (old_llik s5)\<rparr>)"

text \<open>
  The state before the loop (lines 199 to 225). The array \<^verbatim>\<open>new_llik\<close> is declared
  without an initial value, so its first content \<open>junk\<close> is a parameter of the model.
\<close>

definition dp_init :: "double list \<Rightarrow> double list \<Rightarrow> nat \<Rightarrow> dp_state" where
  "dp_init junk llik n =
     (let old = map (\<lambda>j. llik ! (j * n)) [0..<n]
      in \<lparr>nbreaks = 0, new_breakpoint = 0, new_llik = junk, old_llik = old,
          new_bkpt_list = replicate (n * n) 0, old_bkpt_list = replicate (n * n) 0,
          new_full_llik = old ! (n - 1), old_full_llik = NInf\<rparr>)"

text \<open>
  Termination of the \<^verbatim>\<open>while\<close> loop: the round number grows, and once three times
  the round number has reached \<open>n\<close> a round leaves \<^verbatim>\<open>new_llik\<close> alone, so the
  two totals become equal after at most two more rounds.
\<close>

definition dp_slack :: "nat \<Rightarrow> dp_state \<Rightarrow> nat" where
  "dp_slack n s =
     (if dlt (old_full_llik s) (new_full_llik s) then 1 else 0) +
     (if dlt (new_full_llik s) (new_llik s ! (n - 1)) then 1 else 0)"

lemma dlt_irrefl [simp]: "\<not> dlt x x"
  by (cases x) simp_all

lemma nbreaks_fold_try [simp]: "nbreaks (fold (dp_try llik n j) is s) = nbreaks s"
  by (induction "is" arbitrary: s) (simp_all add: dp_try_def Let_def)

lemma nbreaks_update_list [simp]: "nbreaks (dp_update_list n j s) = nbreaks s"
proof -
  have "nbreaks (fold (\<lambda>i t. t\<lparr>new_bkpt_list :=
      (new_bkpt_list t)[j + i * n := old_bkpt_list t ! (new_breakpoint t + i * n)]\<rparr>) is s) = nbreaks s"
    for "is"
    by (induction "is" arbitrary: s) simp_all
  then show ?thesis by (simp add: dp_update_list_def Let_def)
qed

lemma nbreaks_end_point [simp]: "nbreaks (dp_end_point llik n j s) = nbreaks s"
  by (simp add: dp_end_point_def)

lemma nbreaks_fold_end_point [simp]: "nbreaks (fold (dp_end_point llik n) js s) = nbreaks s"
  by (induction js arbitrary: s) simp_all

lemma nbreaks_round [simp]: "nbreaks (dp_round llik n s) = Suc (nbreaks s)"
  by (simp add: dp_round_def Let_def)

lemma old_full_round [simp]: "old_full_llik (dp_round llik n s) = new_full_llik s"
proof -
  have a: "new_full_llik (fold (dp_try llik n j) is t) = new_full_llik t" for j "is" t
    by (induction "is" arbitrary: t) (simp_all add: dp_try_def Let_def)
  have b: "new_full_llik (fold (\<lambda>i t. t\<lparr>new_bkpt_list :=
      (new_bkpt_list t)[j + i * n := old_bkpt_list t ! (new_breakpoint t + i * n)]\<rparr>) is t) = new_full_llik t"
    for j "is" t
    by (induction "is" arbitrary: t) simp_all
  have c: "new_full_llik (dp_end_point llik n j t) = new_full_llik t" for j t
    by (simp add: dp_end_point_def dp_update_list_def Let_def a b)
  have d: "new_full_llik (fold (dp_end_point llik n) js t) = new_full_llik t" for js t
    by (induction js arbitrary: t) (simp_all add: c)
  show ?thesis by (simp add: dp_round_def Let_def d)
qed

lemma new_full_round [simp]:
  "new_full_llik (dp_round llik n s) = new_llik (dp_round llik n s) ! (n - 1)"
  by (simp add: dp_round_def Let_def)

lemma new_llik_round_late: "n \<le> 3 * nbreaks s \<Longrightarrow> new_llik (dp_round llik n s) = new_llik s"
  by (simp add: dp_round_def Let_def)

function dp_loop :: "double list \<Rightarrow> nat \<Rightarrow> dp_state \<Rightarrow> dp_state" where
  "dp_loop llik n s =
     (if dlt (old_full_llik s) (new_full_llik s) then dp_loop llik n (dp_round llik n s) else s)"
  by pat_completeness auto
termination
proof (relation "measures [\<lambda>(llik, n, s). n - 3 * nbreaks s, \<lambda>(llik, n, s). dp_slack n s]")
  show "wf (measures [\<lambda>(llik, n, s). n - 3 * nbreaks s, \<lambda>(llik, n, s). dp_slack n s])"
    by simp
next
  fix llik :: "double list" and n :: nat and s :: dp_state
  assume run: "dlt (old_full_llik s) (new_full_llik s)"
  show "((llik, n, dp_round llik n s), (llik, n, s))
          \<in> measures [\<lambda>(llik, n, s). n - 3 * nbreaks s, \<lambda>(llik, n, s). dp_slack n s]"
  proof (cases "n \<le> 3 * nbreaks s")
    case True
    then have "dp_slack n (dp_round llik n s) < dp_slack n s"
      using run by (simp add: dp_slack_def new_llik_round_late)
    with True show ?thesis by simp
  next
    case False
    then have "n - 3 * nbreaks (dp_round llik n s) < n - 3 * nbreaks s"
      by simp
    then show ?thesis by simp
  qed
qed

declare dp_loop.simps [simp del]

text \<open>The whole function: the result is read from the older breakpoint list (lines 272 to 274).\<close>

definition get_breakpoints :: "double list \<Rightarrow> double list \<Rightarrow> nat \<Rightarrow> int list" where
  "get_breakpoints junk llik n =
     (let s = dp_loop llik n (dp_init junk llik n)
      in map (\<lambda>i. old_bkpt_list s ! (n - 1 + i * n)) [0..<n])"



text \<open>
  The state reached after \<open>k\<close> rounds, whether or not the loop runs them all.
\<close>

definition dp_after :: "double list \<Rightarrow> double list \<Rightarrow> nat \<Rightarrow> nat \<Rightarrow> dp_state" where
  "dp_after junk llik n k = (dp_round llik n ^^ k) (dp_init junk llik n)"

text \<open>
  The values that \<open>k\<close> rounds can build for the end point \<open>j\<close> out of computed
  entries only: an entry \<open>(0, j)\<close> of the likelihood matrix that is not the sentinel,
  or such a value for \<open>k\<close> breakpoints and the end point \<open>i - 1\<close> plus an entry
  \<open>(i, j)\<close> that is not the sentinel.
\<close>

inductive built :: "double list \<Rightarrow> nat \<Rightarrow> nat \<Rightarrow> nat \<Rightarrow> double \<Rightarrow> bool"
  for llik :: "double list" and n :: nat where
  built_first: "llik ! (j * n) \<noteq> NaN \<Longrightarrow> built llik n 0 j (llik ! (j * n))"
| built_next: "built llik n k (i - 1) u \<Longrightarrow> llik ! (i + j * n) \<noteq> NaN \<Longrightarrow>
     3 * (k + 1) \<le> i \<Longrightarrow> i + 2 \<le> j \<Longrightarrow>
     built llik n (Suc k) j (dadd u (llik ! (i + j * n)))"

section \<open>The orchestrator \<^verbatim>\<open>tadbit\<close>\<close>

text \<open>The distance matrix (lines 306 to 312): the cell \<open>i * n + j\<close> holds \<open>|i - j|\<close>.\<close>

definition distance_matrix :: "nat \<Rightarrow> double list" where
  "distance_matrix n =
     concat (map (\<lambda>i. map (\<lambda>j. Fin \<bar>real i - real j\<bar>) [0..<n]) [0..<n])"

text \<open>
  The body of the loop over the replicates (lines 375 to 380): the replicate is
  segmented at \<open>(i, j)\<close>, the three blocks are fitted against the blocks of the
  distance matrix, each with its own parameter pair, and the sum is added to the cell
  \<open>i + j * n\<close> of the likelihood matrix.
\<close>

definition fit_replicate :: "double list list \<Rightarrow> nat \<Rightarrow> nat \<Rightarrow> nat \<Rightarrow> nat \<Rightarrow> fit_state \<Rightarrow> fit_state option" where
  "fit_replicate obs n i j k s =
     (case rd obs k of
        None \<Rightarrow> None
      | Some mat \<Rightarrow>
     (case break_in_blocks mat n i j (t_k_blk s) of
        None \<Rightarrow> None
      | Some seg \<Rightarrow>
     (case ml_ab (bufs seg Top) (t_d_blk s Top) (t_ab s Top) (i * (j - i + 1)) of
        None \<Rightarrow> None
      | Some (top_fit, ab0) \<Rightarrow>
     (case ml_ab (bufs seg Tri) (t_d_blk s Tri) (t_ab s Tri) ((j - i) * (j - i + 1) div 2) of
        None \<Rightarrow> None
      | Some (tri_fit, ab1) \<Rightarrow>
     (case ml_ab (bufs seg Bot) (t_d_blk s Bot) (t_ab s Bot) ((n - j - 1) * (j - i + 1)) of
        None \<Rightarrow> None
      | Some (bot_fit, ab2) \<Rightarrow>
          Some (s\<lparr>t_k_blk := bufs seg,
                  t_ab := (t_ab s)(Top := ab0, Tri := ab1, Bot := ab2),
                  t_llik := (t_llik s)[i + j * n :=
                     dadd (t_llik s ! (i + j * n))
                          (dadd (dadd (ddiv top_fit (Fin 2)) tri_fit)
                                (ddiv bot_fit (Fin 2)))]\<rparr>))))))"

text \<open>The computation of one entry of the likelihood matrix (lines 370 to 381).\<close>

definition segment_pair :: "double list list \<Rightarrow> double list \<Rightarrow> nat \<Rightarrow> nat \<Rightarrow> nat \<Rightarrow> nat \<Rightarrow> fit_state \<Rightarrow> fit_state option" where
  "segment_pair obs dis n m i j s =
     (case break_in_blocks dis n i j (t_d_blk s) of
        None \<Rightarrow> None
      | Some seg \<Rightarrow>
          for_each [0..<m] (fit_replicate obs n i j)
            (s\<lparr>t_d_blk := bufs seg, t_llik := (t_llik s)[i + j * n := Fin 0]\<rparr>))"

text \<open>The loop over the end point \<open>j\<close> (lines 364 to 382) and the loop over \<open>i\<close> (358 to 383).\<close>

definition scan_end_points :: "double list list \<Rightarrow> double list \<Rightarrow> nat \<Rightarrow> nat \<Rightarrow> int list \<Rightarrow> nat \<Rightarrow> fit_state \<Rightarrow> fit_state option" where
  "scan_end_points obs dis n m bkpts i s =
     for_each [i + 2..<n]
       (\<lambda>j t. if bkpts ! j \<noteq> 1 then Some t else segment_pair obs dis n m i j t) s"

definition likelihood_matrix :: "double list list \<Rightarrow> double list \<Rightarrow> nat \<Rightarrow> nat \<Rightarrow> int list \<Rightarrow> fit_state \<Rightarrow> fit_state option" where
  "likelihood_matrix obs dis n m bkpts s =
     for_each [0..<n - 2]
       (\<lambda>i t. if 0 < i \<and> bkpts ! (i - 1) \<noteq> 1 then Some t
              else scan_end_points obs dis n m bkpts i t) s"

text \<open>
  The candidates (lines 336 to 345): all positions by default, the result of the
  filter in fast mode.
\<close>

definition candidates ::
  "bool \<Rightarrow> double list list \<Rightarrow> double list \<Rightarrow> nat \<Rightarrow> nat \<Rightarrow> (region \<Rightarrow> double list) \<Rightarrow>
   (region \<Rightarrow> double list) \<Rightarrow> (nat \<Rightarrow> double) \<Rightarrow>
   (int list \<times> (region \<Rightarrow> double list) \<times> (region \<Rightarrow> double list)) option" where
  "candidates fast obs dis n m k_blk d_blk junk =
     (let bkpts = replicate n 1
      in if fast then remove_non_local_maxima obs dis n m k_blk d_blk bkpts junk
         else Some (bkpts, k_blk, d_blk))"

text \<open>
  The allocation of the three blocks of one kind (lines 315 to 318, and 320 to 323):
  the cells are not initialised.
\<close>

definition allocate_blocks :: "nat \<Rightarrow> (region \<Rightarrow> nat \<Rightarrow> double) \<Rightarrow> (region \<Rightarrow> double list) option" where
  "allocate_blocks n junk =
     (case block_capacity n Top of
        None \<Rightarrow> None
      | Some c0 \<Rightarrow>
     (case block_capacity n Tri of
        None \<Rightarrow> None
      | Some c1 \<Rightarrow>
     (case block_capacity n Bot of
        None \<Rightarrow> None
      | Some c2 \<Rightarrow>
          Some (\<lambda>r. uninitialised (junk r) (case r of Top \<Rightarrow> c0 | Tri \<Rightarrow> c1 | Bot \<Rightarrow> c2)))))"

text \<open>
  The function. The likelihood matrix starts with the sentinel in every cell, the
  blocks are allocated with their capacities and not initialised, and the parameter
  pairs start at 0. The contents of the uninitialised arrays are parameters of the
  model: \<open>d_junk\<close> and \<open>k_junk\<close> for the blocks, \<open>p_junk\<close> for the scores of the filter
  and \<open>l_junk\<close> for the array \<^verbatim>\<open>new_llik\<close> of \<^verbatim>\<open>get_breakpoints\<close>.
\<close>

definition tadbit ::
  "double list list \<Rightarrow> nat \<Rightarrow> nat \<Rightarrow> bool \<Rightarrow> (region \<Rightarrow> nat \<Rightarrow> double) \<Rightarrow>
   (region \<Rightarrow> nat \<Rightarrow> double) \<Rightarrow> (nat \<Rightarrow> double) \<Rightarrow> (nat \<Rightarrow> double) \<Rightarrow> int list option" where
  "tadbit obs n m fast d_junk k_junk p_junk l_junk =
     (let dis = distance_matrix n
      in case allocate_blocks n d_junk of
           None \<Rightarrow> None
         | Some d_blk \<Rightarrow>
      (case allocate_blocks n k_junk of
           None \<Rightarrow> None
         | Some k_blk \<Rightarrow>
      (case candidates fast obs dis n m k_blk d_blk p_junk of
           None \<Rightarrow> None
         | Some (bkpts, k_blk1, d_blk1) \<Rightarrow>
             (case likelihood_matrix obs dis n m bkpts
                     \<lparr>t_llik = replicate (n * n) NaN, t_d_blk = d_blk1, t_k_blk = k_blk1,
                      t_ab = (\<lambda>r. (Fin 0, Fin 0))\<rparr> of
                None \<Rightarrow> None
              | Some s \<Rightarrow> Some (get_breakpoints (uninitialised l_junk n) (t_llik s) n)))))"

subsection \<open>The entries of the likelihood matrix, as the design describes them\<close>

text \<open>
  The pairs for which the design computes an entry: \<open>0 \<le> i \<le> n - 3\<close> and
  \<open>i + 2 \<le> j \<le> n - 1\<close>, with \<open>i - 1\<close> and \<open>j\<close> marked as candidates, where
  \<open>i = 0\<close> stands for the index \<open>-1\<close>, which always counts as a candidate.
\<close>

definition computed_pair :: "nat \<Rightarrow> int list \<Rightarrow> nat \<Rightarrow> nat \<Rightarrow> bool" where
  "computed_pair n bkpts i j \<longleftrightarrow>
     i + 3 \<le> n \<and> i + 2 \<le> j \<and> j < n \<and> (i = 0 \<or> bkpts ! (i - 1) = 1) \<and> bkpts ! j = 1"

text \<open>
  The fit of one region: the values of the region of the replicate against the values
  of the same region of the distance matrix, started from the parameter pair \<open>ab\<close>.
\<close>

definition fit_region ::
  "double list \<Rightarrow> double list \<Rightarrow> region \<Rightarrow> nat \<Rightarrow> nat \<Rightarrow> nat \<Rightarrow> double \<times> double \<Rightarrow>
   (double \<times> double \<times> double) option" where
  "fit_region mat dis r n i j ab =
     ml_ab (region_values mat r n i j) (region_values dis r n i j) ab (region_count r n i j)"

text \<open>
  The term of one replicate: half the fit of the top region, the fit of the
  triangular region and half the fit of the bottom region, each region with its own
  parameter pair.
\<close>

definition replicate_term ::
  "double list \<Rightarrow> double list \<Rightarrow> nat \<Rightarrow> nat \<Rightarrow> nat \<Rightarrow> (region \<Rightarrow> double \<times> double) \<Rightarrow>
   (double \<times> (region \<Rightarrow> double \<times> double)) option" where
  "replicate_term mat dis n i j ab =
     (case fit_region mat dis Top n i j (ab Top) of
        None \<Rightarrow> None
      | Some (top_fit, ab0) \<Rightarrow>
     (case fit_region mat dis Tri n i j (ab Tri) of
        None \<Rightarrow> None
      | Some (tri_fit, ab1) \<Rightarrow>
     (case fit_region mat dis Bot n i j (ab Bot) of
        None \<Rightarrow> None
      | Some (bot_fit, ab2) \<Rightarrow>
          Some (dadd (dadd (ddiv top_fit (Fin 2)) tri_fit) (ddiv bot_fit (Fin 2)),
                ab(Top := ab0, Tri := ab1, Bot := ab2)))))"

text \<open>
  The entry \<open>(i, j)\<close>: the sum of the terms of the \<open>m\<close> replicates, each replicate
  starting from the parameter pairs the one before has left.
\<close>

definition entry_by_spec ::
  "double list list \<Rightarrow> double list \<Rightarrow> nat \<Rightarrow> nat \<Rightarrow> nat \<Rightarrow> nat \<Rightarrow> (region \<Rightarrow> double \<times> double) \<Rightarrow>
   (double \<times> (region \<Rightarrow> double \<times> double)) option" where
  "entry_by_spec obs dis n m i j ab =
     for_each [0..<m]
       (\<lambda>k (acc, ab). case rd obs k of
                 None \<Rightarrow> None
               | Some mat \<Rightarrow>
                   (case replicate_term mat dis n i j ab of
                      None \<Rightarrow> None
                    | Some (e, ab') \<Rightarrow> Some (dadd acc e, ab')))
       (Fin 0, ab)"

text \<open>
  The whole matrix: the pairs are visited with \<open>i\<close> ascending and, for each \<open>i\<close>,
  \<open>j\<close> ascending; each computed entry is stored, and the parameter pairs it leaves are
  the start of the next one.
\<close>

definition matrix_by_spec ::
  "double list list \<Rightarrow> double list \<Rightarrow> nat \<Rightarrow> nat \<Rightarrow> int list \<Rightarrow>
   double list \<times> (region \<Rightarrow> double \<times> double) \<Rightarrow>
   (double list \<times> (region \<Rightarrow> double \<times> double)) option" where
  "matrix_by_spec obs dis n m bkpts start =
     for_each [0..<n - 2]
       (\<lambda>i. for_each [i + 2..<n]
               (\<lambda>j (llik, ab).
                   if computed_pair n bkpts i j
                   then (case entry_by_spec obs dis n m i j ab of
                           None \<Rightarrow> None
                         | Some (v, ab') \<Rightarrow> Some (llik[i + j * n := v], ab'))
                   else Some (llik, ab)))
       start"

text \<open>
  Well-formed inputs of the construction: the blocks have at least the room that the
  segmentations need, which is what \<^verbatim>\<open>tadbit\<close> allocates when its computation of the
  sizes does not overflow, and the replicates are \<open>m\<close> matrices of \<open>n * n\<close> cells.
\<close>

definition roomy :: "nat \<Rightarrow> fit_state \<Rightarrow> bool" where
  "roomy n s \<longleftrightarrow>
     (\<forall>r. room n r \<le> length (t_d_blk s r)) \<and>
     (\<forall>r. room n r \<le> length (t_k_blk s r))"

definition replicates_ok :: "double list list \<Rightarrow> nat \<Rightarrow> nat \<Rightarrow> bool" where
  "replicates_ok obs n m \<longleftrightarrow> m \<le> length obs \<and> (\<forall>k<m. length (obs ! k) = n * n)"


section \<open>Arrays and their cells\<close>

lemma length_fold_update [simp]: "length (fold (\<lambda>i b. b[f i := g i]) is bl) = length bl"
  by (induction "is" arbitrary: bl) simp_all

lemma fold_update_other:
  "k \<notin> f ` set is \<Longrightarrow> fold (\<lambda>i b. b[f i := g i]) is bl ! k = bl ! k"
  by (induction "is" arbitrary: bl) auto

lemma fold_update_hit:
  "inj_on f (set is) \<Longrightarrow> i \<in> set is \<Longrightarrow> f i < length bl \<Longrightarrow>
   fold (\<lambda>i b. b[f i := g i]) is bl ! f i = g i"
proof (induction "is" arbitrary: bl)
  case Nil
  then show ?case by simp
next
  case (Cons x xs)
  show ?case
  proof (cases "i \<in> set xs")
    case True
    with Cons show ?thesis by (simp add: inj_on_def)
  next
    case False
    with Cons.prems have ix: "i = x" by simp
    have "f x \<notin> f ` set xs"
      using Cons.prems(1) False ix by (auto simp: inj_on_def)
    then show ?thesis
      using Cons.prems(3) ix by (simp add: fold_update_other)
  qed
qed

lemma length_copy_cells [simp]: "length (copy_cells idxs src dst) = length dst"
  by (simp add: copy_cells_def)

lemma copy_cells_all:
  assumes "length src = length dst" and "{0..<length dst} \<subseteq> set idxs"
  shows "copy_cells idxs src dst = src"
proof (rule nth_equalityI)
  show "length (copy_cells idxs src dst) = length src"
    using assms(1) by simp
next
  fix k
  assume "k < length (copy_cells idxs src dst)"
  then have k: "k < length dst" by simp
  with assms(2) have "k \<in> set idxs" by auto
  then show "copy_cells idxs src dst ! k = src ! k"
    unfolding copy_cells_def
    using fold_update_hit [of "\<lambda>x. x" idxs k dst "\<lambda>x. src ! x"] k by simp
qed

lemma cell_less: "p < n \<Longrightarrow> q < n \<Longrightarrow> p + q * n < n * (n::nat)"
proof -
  assume p: "p < n" and q: "q < n"
  then have "Suc q * n \<le> n * n" by (metis Suc_leI mult.commute mult_le_mono2)
  with p show ?thesis by simp
qed

lemma cell_inj: "p < n \<Longrightarrow> p' < n \<Longrightarrow> p + q * n = p' + q' * (n::nat) \<Longrightarrow> p = p' \<and> q = q'"
proof -
  assume p: "p < n" and p': "p' < n" and e: "p + q * n = p' + q' * n"
  from e have "(p + q * n) mod n = (p' + q' * n) mod n" by simp
  with p p' have pp: "p = p'" by simp
  with e have "q * n = q' * n" by simp
  with p have "q = q'" by simp
  with pp show ?thesis by simp
qed

lemma cell_mem: "q < n \<Longrightarrow> p < n \<Longrightarrow> p + q * n \<in> set (all_cells n)"
  unfolding all_cells_def by force

lemma set_all_cells: "set (all_cells n) = {0..<n * n}"
proof
  show "set (all_cells n) \<subseteq> {0..<n * n}"
    by (auto simp: all_cells_def cell_less)
next
  show "{0..<n * n} \<subseteq> set (all_cells n)"
  proof
    fix k
    assume "k \<in> {0..<n * n}"
    then have k: "k < n * n" by simp
    then have n: "0 < n" by (cases n) simp_all
    from k have "k div n < n" by (simp add: less_mult_imp_div_less)
    moreover have "k mod n < n" using n by simp
    ultimately have "k mod n + k div n * n \<in> set (all_cells n)"
      by (rule cell_mem)
    then show "k \<in> set (all_cells n)" by simp
  qed
qed


section \<open>Properties of the fitting routine\<close>

subsection \<open>Two views of a loop\<close>

text \<open>
  A loop on states and a loop on a view of the states take the same steps when each
  step of the one is, through the view, a step of the other.
\<close>

lemma for_each_simulation:
  assumes "Inv s"
    and "\<And>x u. x \<in> set xs \<Longrightarrow> Inv u \<Longrightarrow> map_option view (body x u) = body' x (view u)"
    and "\<And>x u v. x \<in> set xs \<Longrightarrow> Inv u \<Longrightarrow> body x u = Some v \<Longrightarrow> Inv v"
  shows "map_option view (for_each xs body s) = for_each xs body' (view s) \<and>
         (\<forall>t. for_each xs body s = Some t \<longrightarrow> Inv t)"
  using assms
proof (induction xs arbitrary: s)
  case Nil
  then show ?case by simp
next
  case (Cons x xs)
  have step: "map_option view (body x s) = body' x (view s)"
    using Cons.prems(1,2) by simp
  show ?case
  proof (cases "body x s")
    case None
    with step show ?thesis by (simp split: option.splits)
  next
    case (Some u)
    have u: "Inv u" using Cons.prems(3) [of x s u] Cons.prems(1) Some by simp
    have "map_option view (for_each xs body u) = for_each xs body' (view u) \<and>
         (\<forall>t. for_each xs body u = Some t \<longrightarrow> Inv t)"
    proof (rule Cons.IH [OF u])
      fix y v
      assume "y \<in> set xs" and "Inv v"
      then show "map_option view (body y v) = body' y (view v)"
        using Cons.prems(2) [of y v] by simp
    next
      fix y v w
      assume "y \<in> set xs" and "Inv v" and "body y v = Some w"
      then show "Inv w"
        using Cons.prems(3) [of y v w] by simp
    qed
    moreover from step Some have "body' x (view s) = Some (view u)" by simp
    ultimately show ?thesis using Some by simp
  qed
qed

subsection \<open>Only the first \<open>n\<close> cells of the arrays are read\<close>

lemma for_each_cong:
  "(\<And>x s. x \<in> set xs \<Longrightarrow> body x s = body' x s) \<Longrightarrow> for_each xs body s = for_each xs body' s"
  by (induction xs arbitrary: s) (simp_all split: option.splits)

lemma rd_take: "i < n \<Longrightarrow> rd (take n xs) i = rd xs i"
  by (simp add: rd_def)

lemma recompute_fg_take: "recompute_fg (take n k) (take n d) n = recompute_fg k d n"
proof
  fix s
  show "recompute_fg (take n k) (take n d) n s = recompute_fg k d n s"
    unfolding recompute_fg_def
    by (rule for_each_cong) (simp add: rd_take cong: option.case_cong)
qed

lemma derivatives_take: "derivatives (take n d) n = derivatives d n"
proof
  fix s
  show "derivatives (take n d) n s = derivatives d n s"
    unfolding derivatives_def
    by (rule for_each_cong) (simp add: rd_take cong: option.case_cong)
qed

lemma log_likelihood_take: "log_likelihood (take n k) (take n d) n = log_likelihood k d n"
proof
  fix s
  show "log_likelihood (take n k) (take n d) n s = log_likelihood k d n s"
    unfolding log_likelihood_def
    by (rule for_each_cong) (simp add: rd_take cong: option.case_cong)
qed

lemma newton_step_take: "newton_step (take n k) (take n d) n = newton_step k d n"
proof
  fix s
  show "newton_step (take n k) (take n d) n s = newton_step k d n s"
    unfolding newton_step_def derivatives_take recompute_fg_take ..
qed

text \<open>
  The two loops depend on the arrays only through \<^verbatim>\<open>recompute_fg\<close> and the
  Newton-Raphson step: a run with other arrays that give the same two functions
  returns the same result.
\<close>

lemma traceback_Some_transfer:
  assumes run: "traceback k d n oldgrad s = Some y"
    and same: "recompute_fg k' d' n = recompute_fg k d n"
  shows "traceback k' d' n oldgrad s = Some y"
proof -
  let ?P = "\<lambda>k d n oldgrad s y.
      \<forall>k' d'. recompute_fg k' d' n = recompute_fg k d n \<longrightarrow> traceback k' d' n oldgrad s = Some y"
  have "?P k d n oldgrad s y"
  proof (rule traceback.raw_induct [where P = ?P, OF _ run], intro allI impI)
    fix tb and k d :: "double list" and n oldgrad s y and k' d' :: "double list"
    assume IH: "\<And>k d n oldgrad s y. tb k d n oldgrad s = Some y \<Longrightarrow> ?P k d n oldgrad s y"
      and body: "(if dgt (gradient s) oldgrad
          then Option.bind
                 (recompute_fg k d n (s\<lparr>ml_da := ddiv (ml_da s) (Fin 2), ml_db := ddiv (ml_db s) (Fin 2)\<rparr>))
                 (tb k d n oldgrad)
          else Some s) = Some y"
      and eq: "recompute_fg k' d' n = recompute_fg k d n"
    show "traceback k' d' n oldgrad s = Some y"
    proof (cases "dgt (gradient s) oldgrad")
      case False
      with body show ?thesis
        by (subst traceback.simps) simp
    next
      case True
      let ?s = "s\<lparr>ml_da := ddiv (ml_da s) (Fin 2), ml_db := ddiv (ml_db s) (Fin 2)\<rparr>"
      from body True obtain t where t: "recompute_fg k d n ?s = Some t"
        and y: "tb k d n oldgrad t = Some y"
        by (auto simp: bind_eq_Some_conv)
      from IH [OF y] eq have "traceback k' d' n oldgrad t = Some y" by blast
      with t True eq show ?thesis
        by (subst traceback.simps) simp
    qed
  qed
  with same show ?thesis by blast
qed

lemma traceback_transfer:
  assumes "recompute_fg k' d' n = recompute_fg k d n"
  shows "traceback k' d' n oldgrad s = traceback k d n oldgrad s"
proof (cases "traceback k d n oldgrad s")
  case (Some y)
  then have "traceback k' d' n oldgrad s = Some y"
    using assms by (rule traceback_Some_transfer)
  with Some show ?thesis by simp
next
  case None
  show ?thesis
  proof (cases "traceback k' d' n oldgrad s")
    case None
    with \<open>traceback k d n oldgrad s = None\<close> show ?thesis by simp
  next
    case (Some y)
    then have "traceback k d n oldgrad s = Some y"
      using assms [symmetric] by (rule traceback_Some_transfer)
    with None show ?thesis by simp
  qed
qed

lemma newton_raphson_Some_transfer:
  assumes run: "newton_raphson k d n s = Some y"
    and same: "recompute_fg k' d' n = recompute_fg k d n"
    and same_step: "newton_step k' d' n = newton_step k d n"
  shows "newton_raphson k' d' n s = Some y"
proof -
  let ?P = "\<lambda>k d n s y.
      \<forall>k' d'. recompute_fg k' d' n = recompute_fg k d n \<and> newton_step k' d' n = newton_step k d n
         \<longrightarrow> newton_raphson k' d' n s = Some y"
  have "?P k d n s y"
  proof (rule newton_raphson.raw_induct [where P = ?P, OF _ run], intro allI impI)
    fix nr and k d :: "double list" and n s y and k' d' :: "double list"
    assume IH: "\<And>k d n s y. nr k d n s = Some y \<Longrightarrow> ?P k d n s y"
      and body: "(if dgt (gradient s) TOLERANCE
          then Option.bind (newton_step k d n s)
                 (\<lambda>s1. Option.bind (traceback k d n (gradient s) s1)
                    (\<lambda>s2. nr k d n
                       (s2\<lparr>ml_a := dadd (ml_a s2) (ml_da s2), ml_b := dadd (ml_b s2) (ml_db s2)\<rparr>)))
          else Some s) = Some y"
      and eq: "recompute_fg k' d' n = recompute_fg k d n \<and> newton_step k' d' n = newton_step k d n"
    show "newton_raphson k' d' n s = Some y"
    proof (cases "dgt (gradient s) TOLERANCE")
      case False
      with body show ?thesis
        by (subst newton_raphson.simps) simp
    next
      case True
      from body True obtain s1 s2 where s1: "newton_step k d n s = Some s1"
        and s2: "traceback k d n (gradient s) s1 = Some s2"
        and y: "nr k d n (s2\<lparr>ml_a := dadd (ml_a s2) (ml_da s2), ml_b := dadd (ml_b s2) (ml_db s2)\<rparr>) = Some y"
        by (auto simp: bind_eq_Some_conv)
      from IH [OF y] eq
      have "newton_raphson k' d' n
          (s2\<lparr>ml_a := dadd (ml_a s2) (ml_da s2), ml_b := dadd (ml_b s2) (ml_db s2)\<rparr>) = Some y"
        by blast
      moreover have "traceback k' d' n (gradient s) s1 = Some s2"
        using s2 conjunct1 [OF eq] by (rule traceback_Some_transfer)
      moreover have "newton_step k' d' n s = Some s1"
        using s1 eq by simp
      ultimately show ?thesis
        using True by (subst newton_raphson.simps) simp
    qed
  qed
  with same same_step show ?thesis by blast
qed

lemma newton_raphson_transfer:
  assumes "recompute_fg k' d' n = recompute_fg k d n"
    and "newton_step k' d' n = newton_step k d n"
  shows "newton_raphson k' d' n s = newton_raphson k d n s"
proof (cases "newton_raphson k d n s")
  case (Some y)
  then have "newton_raphson k' d' n s = Some y"
    using assms by (rule newton_raphson_Some_transfer)
  with Some show ?thesis by simp
next
  case None
  show ?thesis
  proof (cases "newton_raphson k' d' n s")
    case None
    with \<open>newton_raphson k d n s = None\<close> show ?thesis by simp
  next
    case (Some y)
    then have "newton_raphson k d n s = Some y"
      using assms [symmetric] by (rule newton_raphson_Some_transfer)
    with None show ?thesis by simp
  qed
qed

lemma ml_ab_take: "ml_ab (take n k) (take n d) ab n = ml_ab k d ab n"
proof -
  have nr: "newton_raphson (take n k) (take n d) n = newton_raphson k d n"
    by (rule ext) (rule newton_raphson_transfer [OF recompute_fg_take newton_step_take])
  show ?thesis
    unfolding ml_ab_def recompute_fg_take log_likelihood_take nr ..
qed

lemma ml_ab_prefix:
  assumes "take n k' = take n k" and "take n d' = take n d"
  shows "ml_ab k' d' ab n = ml_ab k d ab n"
  using ml_ab_take [of n k d ab] ml_ab_take [of n k' d' ab] assms by simp

subsection \<open>A converged start\<close>

lemma newton_raphson_converged:
  "\<not> dgt (gradient s) TOLERANCE \<Longrightarrow> newton_raphson k d n s = Some s"
  by (subst newton_raphson.simps) simp

lemma ml_ab_no_data: "ml_ab k d ab 0 = Some (Fin 0, ab)"
proof -
  let ?s = "\<lparr>ml_a = fst ab, ml_b = snd ab, ml_da = Fin 0, ml_db = Fin 0,
            ml_f = Fin 0, ml_g = Fin 0\<rparr>"
  have fg: "recompute_fg k d 0 ?s = Some ?s"
    by (simp add: recompute_fg_def)
  have "\<not> dgt (gradient ?s) TOLERANCE"
    by (simp add: gradient_def TOLERANCE_def dgt_def)
  then have nr: "newton_raphson k d 0 ?s = Some ?s"
    by (rule newton_raphson_converged)
  have ll: "log_likelihood k d 0 ?s = Some (Fin 0)"
    by (simp add: log_likelihood_def)
  show ?thesis
    by (simp add: ml_ab_def fg nr ll)
qed

subsection \<open>What a returning fit has computed\<close>

text \<open>
  In a settled state \<open>f\<close> and \<open>g\<close> are the scores at \<open>(a, b)\<close>; in a staged state they
  are the scores at \<open>(a + da, b + db)\<close>.
\<close>

definition settled :: "double list \<Rightarrow> double list \<Rightarrow> nat \<Rightarrow> ml_state \<Rightarrow> bool" where
  "settled k d n s \<longleftrightarrow>
     score_F k d n (ml_a s) (ml_b s) = Some (ml_f s) \<and>
     score_G k d n (ml_a s) (ml_b s) = Some (ml_g s)"

definition staged :: "double list \<Rightarrow> double list \<Rightarrow> nat \<Rightarrow> ml_state \<Rightarrow> bool" where
  "staged k d n s \<longleftrightarrow>
     score_F k d n (dadd (ml_a s) (ml_da s)) (dadd (ml_b s) (ml_db s)) = Some (ml_f s) \<and>
     score_G k d n (dadd (ml_a s) (ml_da s)) (dadd (ml_b s) (ml_db s)) = Some (ml_g s)"

lemma dadd_zero_right [simp]: "dadd x (Fin 0) = x"
  by (cases x) simp_all

lemma recompute_fg_loop:
  assumes "for_each is
       (\<lambda>i t. case rd d i of
                 None \<Rightarrow> None
               | Some di \<Rightarrow>
                   (case rd k i of
                      None \<Rightarrow> None
                    | Some ki \<Rightarrow>
                        (let tmp = dsub (dexp (dadd (dadd (ml_a t) (ml_da t))
                                                    (dmul (dadd (ml_b t) (ml_db t)) di))) ki
                         in Some (t\<lparr>ml_f := dadd (ml_f t) tmp,
                                     ml_g := dadd (ml_g t) (dmul tmp di)\<rparr>)))) u = Some t"
  shows "ml_a t = ml_a u \<and> ml_b t = ml_b u \<and> ml_da t = ml_da u \<and> ml_db t = ml_db u \<and>
         for_each is
           (\<lambda>i acc. case rd d i of
                 None \<Rightarrow> None
               | Some di \<Rightarrow>
                   (case rd k i of
                      None \<Rightarrow> None
                    | Some ki \<Rightarrow>
                        Some (dadd acc (dsub (dexp (dadd (dadd (ml_a u) (ml_da u))
                                 (dmul (dadd (ml_b u) (ml_db u)) di))) ki))))
           (ml_f u) = Some (ml_f t) \<and>
         for_each is
           (\<lambda>i acc. case rd d i of
                 None \<Rightarrow> None
               | Some di \<Rightarrow>
                   (case rd k i of
                      None \<Rightarrow> None
                    | Some ki \<Rightarrow>
                        Some (dadd acc (dmul (dsub (dexp (dadd (dadd (ml_a u) (ml_da u))
                                 (dmul (dadd (ml_b u) (ml_db u)) di))) ki) di))))
           (ml_g u) = Some (ml_g t)"
  using assms
proof (induction "is" arbitrary: u)
  case Nil
  then show ?case by simp
next
  case (Cons i "is")
  from Cons.prems obtain di ki where di: "rd d i = Some di" and ki: "rd k i = Some ki"
    by (auto split: option.splits)
  let ?tmp = "dsub (dexp (dadd (dadd (ml_a u) (ml_da u)) (dmul (dadd (ml_b u) (ml_db u)) di))) ki"
  let ?v = "u\<lparr>ml_f := dadd (ml_f u) ?tmp, ml_g := dadd (ml_g u) (dmul ?tmp di)\<rparr>"
  from Cons.prems have rest: "for_each is
       (\<lambda>i t. case rd d i of
                 None \<Rightarrow> None
               | Some di \<Rightarrow>
                   (case rd k i of
                      None \<Rightarrow> None
                    | Some ki \<Rightarrow>
                        (let tmp = dsub (dexp (dadd (dadd (ml_a t) (ml_da t))
                                                    (dmul (dadd (ml_b t) (ml_db t)) di))) ki
                         in Some (t\<lparr>ml_f := dadd (ml_f t) tmp,
                                     ml_g := dadd (ml_g t) (dmul tmp di)\<rparr>)))) ?v = Some t"
    by (simp add: di ki Let_def)
  from Cons.IH [OF rest] show ?case
    by (simp add: di ki cong: option.case_cong)
qed

lemma recompute_fg_staged:
  assumes "recompute_fg k d n s = Some t"
  shows "staged k d n t \<and> ml_a t = ml_a s \<and> ml_b t = ml_b s \<and>
         ml_da t = ml_da s \<and> ml_db t = ml_db s"
  using recompute_fg_loop [OF assms [unfolded recompute_fg_def]]
  by (simp add: staged_def score_F_def score_G_def cong: option.case_cong)

lemma traceback_staged:
  assumes run: "traceback k d n oldgrad s = Some t" and st: "staged k d n s"
  shows "staged k d n t \<and> ml_a t = ml_a s \<and> ml_b t = ml_b s"
proof -
  let ?P = "\<lambda>k d n oldgrad s t.
      staged k d n s \<longrightarrow> staged k d n t \<and> ml_a t = ml_a s \<and> ml_b t = ml_b s"
  have "?P k d n oldgrad s t"
  proof (rule traceback.raw_induct [where P = ?P, OF _ run], intro impI)
    fix tb and k d :: "double list" and n oldgrad s t
    assume IH: "\<And>k d n oldgrad s t. tb k d n oldgrad s = Some t \<Longrightarrow> ?P k d n oldgrad s t"
      and body: "(if dgt (gradient s) oldgrad
          then Option.bind
                 (recompute_fg k d n (s\<lparr>ml_da := ddiv (ml_da s) (Fin 2), ml_db := ddiv (ml_db s) (Fin 2)\<rparr>))
                 (tb k d n oldgrad)
          else Some s) = Some t"
      and st: "staged k d n s"
    show "staged k d n t \<and> ml_a t = ml_a s \<and> ml_b t = ml_b s"
    proof (cases "dgt (gradient s) oldgrad")
      case False
      with body st show ?thesis by simp
    next
      case True
      let ?s = "s\<lparr>ml_da := ddiv (ml_da s) (Fin 2), ml_db := ddiv (ml_db s) (Fin 2)\<rparr>"
      from body True obtain u where u: "recompute_fg k d n ?s = Some u"
        and t: "tb k d n oldgrad u = Some t"
        by (auto simp: bind_eq_Some_conv)
      from recompute_fg_staged [OF u] IH [OF t] show ?thesis by simp
    qed
  qed
  with st show ?thesis by blast
qed

lemma newton_raphson_settled:
  assumes run: "newton_raphson k d n s = Some t" and st: "settled k d n s"
  shows "settled k d n t \<and> \<not> dgt (gradient t) TOLERANCE"
proof -
  let ?P = "\<lambda>k d n s t. settled k d n s \<longrightarrow> settled k d n t \<and> \<not> dgt (gradient t) TOLERANCE"
  have "?P k d n s t"
  proof (rule newton_raphson.raw_induct [where P = ?P, OF _ run], intro impI)
    fix nr and k d :: "double list" and n s t
    assume IH: "\<And>k d n s t. nr k d n s = Some t \<Longrightarrow> ?P k d n s t"
      and body: "(if dgt (gradient s) TOLERANCE
          then Option.bind (newton_step k d n s)
                 (\<lambda>s1. Option.bind (traceback k d n (gradient s) s1)
                    (\<lambda>s2. nr k d n
                       (s2\<lparr>ml_a := dadd (ml_a s2) (ml_da s2), ml_b := dadd (ml_b s2) (ml_db s2)\<rparr>)))
          else Some s) = Some t"
      and st: "settled k d n s"
    show "settled k d n t \<and> \<not> dgt (gradient t) TOLERANCE"
    proof (cases "dgt (gradient s) TOLERANCE")
      case False
      with body st show ?thesis by simp
    next
      case True
      from body True obtain s1 s2 where s1: "newton_step k d n s = Some s1"
        and s2: "traceback k d n (gradient s) s1 = Some s2"
        and t: "nr k d n (s2\<lparr>ml_a := dadd (ml_a s2) (ml_da s2), ml_b := dadd (ml_b s2) (ml_db s2)\<rparr>) = Some t"
        by (auto simp: bind_eq_Some_conv)
      from s1 obtain s' where "recompute_fg k d n s' = Some s1"
        by (auto simp: newton_step_def Let_def split: option.splits)
      then have "staged k d n s1" using recompute_fg_staged by blast
      with s2 have "staged k d n s2" using traceback_staged by blast
      then have "settled k d n
          (s2\<lparr>ml_a := dadd (ml_a s2) (ml_da s2), ml_b := dadd (ml_b s2) (ml_db s2)\<rparr>)"
        by (simp add: staged_def settled_def)
      with IH [OF t] show ?thesis by simp
    qed
  qed
  with st show ?thesis by blast
qed

text \<open>
  A call that returns leaves in \<^verbatim>\<open>ab\<close> a pair at which the squared norm of the
  scores does not compare greater than the tolerance, and returns the log-likelihood
  computed at this pair. The squared norm may be \<open>NaN\<close>.
\<close>

lemma log_likelihood_sum: "log_likelihood k d n s = loglik_sum k d n (ml_a s) (ml_b s)"
  by (simp add: log_likelihood_def loglik_sum_def)

lemma ml_ab_returned:
  assumes "ml_ab k d ab n = Some (llik, a', b')"
  shows "\<exists>F G. score_F k d n a' b' = Some F \<and> score_G k d n a' b' = Some G \<and>
           \<not> dgt (dadd (dmul F F) (dmul G G)) TOLERANCE \<and>
           loglik_sum k d n a' b' = Some llik"
proof -
  let ?s = "\<lparr>ml_a = fst ab, ml_b = snd ab, ml_da = Fin 0, ml_db = Fin 0,
            ml_f = Fin 0, ml_g = Fin 0\<rparr>"
  from assms obtain s0 t where s0: "recompute_fg k d n ?s = Some s0"
    and t: "newton_raphson k d n s0 = Some t"
    and ll: "log_likelihood k d n t = Some llik"
    and ab: "a' = ml_a t" "b' = ml_b t"
    by (auto simp: ml_ab_def split: option.splits)
  from recompute_fg_staged [OF s0] have "settled k d n s0"
    by (auto simp: staged_def settled_def)
  with t have "settled k d n t" and ex: "\<not> dgt (gradient t) TOLERANCE"
    using newton_raphson_settled by blast+
  then show ?thesis
    using ll ab by (auto simp: settled_def gradient_def log_likelihood_sum)
qed

subsection \<open>Finite data with two different distances\<close>

text \<open>
  With finite counts and distances and a finite start, and with at least two
  different distances, the matrix of the derivatives is never singular: every value
  of the run is finite, and the loop is left only when the squared norm of the scores
  is at most the tolerance.
\<close>

lemma is_fin_conv: "is_fin x \<longleftrightarrow> x = Fin (fin_val x)"
  by (cases x) simp_all

lemma is_fin_dadd: "is_fin x \<Longrightarrow> is_fin y \<Longrightarrow> is_fin (dadd x y)"
  by (cases x; cases y) simp_all

lemma is_fin_dmul: "is_fin x \<Longrightarrow> is_fin y \<Longrightarrow> is_fin (dmul x y)"
  by (cases x; cases y) simp_all

lemma is_fin_dsub: "is_fin x \<Longrightarrow> is_fin y \<Longrightarrow> is_fin (dsub x y)"
  by (cases x; cases y) (simp_all add: dsub_def)

lemma is_fin_dexp: "is_fin x \<Longrightarrow> is_fin (dexp x)"
  by (cases x) simp_all

lemma is_fin_half: "is_fin x \<Longrightarrow> is_fin (ddiv x (Fin 2))"
  by (cases x) simp_all

definition all_fin :: "ml_state \<Rightarrow> bool" where
  "all_fin s \<longleftrightarrow> is_fin (ml_a s) \<and> is_fin (ml_b s) \<and> is_fin (ml_da s) \<and>
     is_fin (ml_db s) \<and> is_fin (ml_f s) \<and> is_fin (ml_g s)"

lemma recompute_fg_loop_fin:
  assumes "for_each is
       (\<lambda>i t. case rd d i of
                 None \<Rightarrow> None
               | Some di \<Rightarrow>
                   (case rd k i of
                      None \<Rightarrow> None
                    | Some ki \<Rightarrow>
                        (let tmp = dsub (dexp (dadd (dadd (ml_a t) (ml_da t))
                                                    (dmul (dadd (ml_b t) (ml_db t)) di))) ki
                         in Some (t\<lparr>ml_f := dadd (ml_f t) tmp,
                                     ml_g := dadd (ml_g t) (dmul tmp di)\<rparr>)))) u = Some t"
    and "all_fin u" and "\<forall>i\<in>set is. is_fin (k ! i) \<and> is_fin (d ! i)"
  shows "all_fin t"
  using assms
proof (induction "is" arbitrary: u)
  case Nil
  then show ?case by simp
next
  case (Cons i "is")
  from Cons.prems(1) obtain di ki where di: "rd d i = Some di" and ki: "rd k i = Some ki"
    by (auto split: option.splits)
  from di ki Cons.prems(3) have fin: "is_fin di" "is_fin ki"
    by (auto simp: rd_def split: if_splits)
  let ?tmp = "dsub (dexp (dadd (dadd (ml_a u) (ml_da u)) (dmul (dadd (ml_b u) (ml_db u)) di))) ki"
  let ?v = "u\<lparr>ml_f := dadd (ml_f u) ?tmp, ml_g := dadd (ml_g u) (dmul ?tmp di)\<rparr>"
  from Cons.prems(1) have rest: "for_each is
       (\<lambda>i t. case rd d i of
                 None \<Rightarrow> None
               | Some di \<Rightarrow>
                   (case rd k i of
                      None \<Rightarrow> None
                    | Some ki \<Rightarrow>
                        (let tmp = dsub (dexp (dadd (dadd (ml_a t) (ml_da t))
                                                    (dmul (dadd (ml_b t) (ml_db t)) di))) ki
                         in Some (t\<lparr>ml_f := dadd (ml_f t) tmp,
                                     ml_g := dadd (ml_g t) (dmul tmp di)\<rparr>)))) ?v = Some t"
    by (simp add: di ki Let_def)
  have "all_fin ?v"
    using Cons.prems(2) fin
    by (simp add: all_fin_def is_fin_dadd is_fin_dmul is_fin_dsub is_fin_dexp)
  with rest Cons.prems(3) show ?case
    by (intro Cons.IH) simp_all
qed

lemma recompute_fg_fin:
  assumes "recompute_fg k d n s = Some t" and "all_fin s"
    and "\<forall>i<n. is_fin (k ! i) \<and> is_fin (d ! i)"
  shows "all_fin t"
proof -
  have "all_fin (s\<lparr>ml_f := Fin 0, ml_g := Fin 0\<rparr>)"
    using assms(2) by (simp add: all_fin_def)
  with assms(1) [unfolded recompute_fg_def] show ?thesis
    by (rule recompute_fg_loop_fin) (use assms(3) in simp)
qed

text \<open>
  The sums \<open>A = \<Sum> e\<^sub>i\<close>, \<open>B = \<Sum> e\<^sub>i d\<^sub>i\<close> and \<open>C = \<Sum> e\<^sub>i d\<^sub>i\<^sup>2\<close> with weights
  \<open>e\<^sub>i > 0\<close> over the distances of a set \<open>S\<close>: the quadratic \<open>A x\<^sup>2 - 2 B x + C\<close> is
  \<open>\<Sum> e\<^sub>i (x - d\<^sub>i)\<^sup>2\<close>, and \<open>A C - B\<^sup>2\<close> is positive as soon as two distances differ.
\<close>

definition spread :: "real set \<Rightarrow> real \<Rightarrow> real \<Rightarrow> real \<Rightarrow> bool" where
  "spread S A B C \<longleftrightarrow>
     (\<forall>x. 0 \<le> A * x * x - 2 * B * x + C) \<and>
     (\<forall>x. (\<exists>y\<in>S. y \<noteq> x) \<longrightarrow> 0 < A * x * x - 2 * B * x + C) \<and>
     0 \<le> A * C - B * B \<and>
     ((\<exists>y\<in>S. \<exists>z\<in>S. y \<noteq> z) \<longrightarrow> 0 < A * C - B * B)"

lemma spread_empty: "spread {} 0 0 0"
  by (simp add: spread_def)

lemma spread_insert:
  assumes sp: "spread S A B C" and e: "0 < e"
  shows "spread (insert d S) (A + e) (B + e * d) (C + e * d * d)"
proof -
  have quad: "(A + e) * x * x - 2 * (B + e * d) * x + (C + e * d * d) =
      (A * x * x - 2 * B * x + C) + e * ((x - d) * (x - d))" for x
    by (simp add: algebra_simps)
  have det: "(A + e) * (C + e * d * d) - (B + e * d) * (B + e * d) =
      (A * C - B * B) + e * (A * d * d - 2 * B * d + C)"
    by (simp add: algebra_simps)
  have q0: "0 \<le> A * x * x - 2 * B * x + C" for x
    using sp by (simp add: spread_def)
  have q1: "0 < A * x * x - 2 * B * x + C" if "\<exists>y\<in>S. y \<noteq> x" for x
    using sp that unfolding spread_def by blast
  have d0: "0 \<le> A * C - B * B"
    using sp by (simp add: spread_def)
  have d1: "0 < A * C - B * B" if "\<exists>y\<in>S. \<exists>z\<in>S. y \<noteq> z"
    using sp that unfolding spread_def by blast
  have sq0: "0 \<le> e * ((x - d) * (x - d))" for x
    using e by simp
  have sq1: "0 < e * ((x - d) * (x - d))" if "x \<noteq> d" for x
  proof -
    from that have "0 < (x - d) * (x - d)"
      by (auto simp: zero_less_mult_iff)
    with e show ?thesis by (rule mult_pos_pos)
  qed
  have p1: "0 \<le> (A + e) * x * x - 2 * (B + e * d) * x + (C + e * d * d)" for x
    unfolding quad using q0 [of x] sq0 [of x] by linarith
  have p2: "0 < (A + e) * x * x - 2 * (B + e * d) * x + (C + e * d * d)"
    if h: "\<exists>y\<in>insert d S. y \<noteq> x" for x
  proof (cases "x = d")
    case False
    then show ?thesis
      unfolding quad using q0 [of x] sq1 [of x] by linarith
  next
    case True
    with h have "\<exists>y\<in>S. y \<noteq> x" by blast
    then show ?thesis
      unfolding quad using q1 [of x] sq0 [of x] by linarith
  qed
  have t0: "0 \<le> e * (A * d * d - 2 * B * d + C)"
    using e q0 [of d] by simp
  have p3: "0 \<le> (A + e) * (C + e * d * d) - (B + e * d) * (B + e * d)"
    unfolding det using d0 t0 by linarith
  have p4: "0 < (A + e) * (C + e * d * d) - (B + e * d) * (B + e * d)"
    if h: "\<exists>y\<in>insert d S. \<exists>z\<in>insert d S. y \<noteq> z"
  proof (cases "\<exists>y\<in>S. \<exists>z\<in>S. y \<noteq> z")
    case True
    then show ?thesis
      unfolding det using d1 t0 by linarith
  next
    case False
    from h obtain y z where yz: "y \<in> insert d S" "z \<in> insert d S" "y \<noteq> z"
      by blast
    have "\<exists>w\<in>S. w \<noteq> d"
    proof (cases "y = d")
      case True
      with yz have "z \<in> S" "z \<noteq> d" by simp_all
      then show ?thesis by blast
    next
      case False
      with yz(1) have "y \<in> S" by simp
      with False show ?thesis by blast
    qed
    then have "0 < A * d * d - 2 * B * d + C" by (rule q1)
    with e have "0 < e * (A * d * d - 2 * B * d + C)" by simp
    then show ?thesis
      unfolding det using d0 by linarith
  qed
  from p1 p2 p3 p4 show ?thesis
    unfolding spread_def by blast
qed

lemma derivatives_loop:
  assumes "for_each is
       (\<lambda>i (dfda, dgda, dgdb). case rd d i of
                 None \<Rightarrow> None
               | Some di \<Rightarrow>
                   (let tmp = dexp (dadd (Fin a) (dmul (Fin b) di))
                    in Some (dadd dfda tmp, dadd dgda (dmul tmp di),
                             dadd dgdb (dmul (dmul tmp di) di))))
       (Fin A, Fin B, Fin C) = Some r"
    and "\<forall>i\<in>set is. is_fin (d ! i)" and "spread S A B C"
  shows "\<exists>A' B' C'. r = (Fin A', Fin B', Fin C') \<and>
           spread (S \<union> (\<lambda>i. fin_val (d ! i)) ` set is) A' B' C'"
  using assms
proof (induction "is" arbitrary: A B C S)
  case Nil
  then show ?case by auto
next
  case (Cons i "is")
  from Cons.prems(1) obtain di where di: "rd d i = Some di"
    by (auto split: option.splits)
  with Cons.prems(2) obtain y where y: "di = Fin y" "d ! i = Fin y"
    by (auto simp: rd_def is_fin_conv split: if_splits)
  let ?e = "exp (a + b * y)"
  from Cons.prems(1) have rest: "for_each is
       (\<lambda>i (dfda, dgda, dgdb). case rd d i of
                 None \<Rightarrow> None
               | Some di \<Rightarrow>
                   (let tmp = dexp (dadd (Fin a) (dmul (Fin b) di))
                    in Some (dadd dfda tmp, dadd dgda (dmul tmp di),
                             dadd dgdb (dmul (dmul tmp di) di))))
       (Fin (A + ?e), Fin (B + ?e * y), Fin (C + ?e * y * y)) = Some r"
    by (simp add: di y Let_def)
  have "spread (insert y S) (A + ?e) (B + ?e * y) (C + ?e * y * y)"
    using Cons.prems(3) by (rule spread_insert) simp
  with rest Cons.prems(2) have "\<exists>A' B' C'. r = (Fin A', Fin B', Fin C') \<and>
      spread (insert y S \<union> (\<lambda>i. fin_val (d ! i)) ` set is) A' B' C'"
    by (intro Cons.IH) simp_all
  then show ?case
    by (simp add: y)
qed

lemma derivatives_regular:
  assumes "derivatives d n s = Some (dfda, dgda, dgdb)"
    and "is_fin (ml_a s)" and "is_fin (ml_b s)"
    and "\<forall>i<n. is_fin (d ! i)" and "\<exists>i<n. \<exists>j<n. d ! i \<noteq> d ! j"
  shows "\<exists>A B C. dfda = Fin A \<and> dgda = Fin B \<and> dgdb = Fin C \<and> B * B - A * C \<noteq> 0"
proof -
  from assms(2,3) obtain a b where ab: "ml_a s = Fin a" "ml_b s = Fin b"
    by (auto simp: is_fin_conv)
  have "\<exists>A' B' C'. (dfda, dgda, dgdb) = (Fin A', Fin B', Fin C') \<and>
      spread ({} \<union> (\<lambda>i. fin_val (d ! i)) ` set [0..<n]) A' B' C'"
    using assms(1) [unfolded derivatives_def ab] assms(4) spread_empty
    by (intro derivatives_loop) simp_all
  then obtain A B C where r: "dfda = Fin A" "dgda = Fin B" "dgdb = Fin C"
    and sp: "spread ((\<lambda>i. fin_val (d ! i)) ` {0..<n}) A B C"
    by auto
  from assms(5) obtain i j where ij: "i < n" "j < n" "d ! i \<noteq> d ! j" by blast
  with assms(4) have "fin_val (d ! i) \<noteq> fin_val (d ! j)"
    by (metis is_fin_conv)
  moreover have "fin_val (d ! i) \<in> (\<lambda>i. fin_val (d ! i)) ` {0..<n}"
    "fin_val (d ! j) \<in> (\<lambda>i. fin_val (d ! i)) ` {0..<n}"
    using ij by auto
  ultimately have "\<exists>y\<in>(\<lambda>i. fin_val (d ! i)) ` {0..<n}. \<exists>z\<in>(\<lambda>i. fin_val (d ! i)) ` {0..<n}. y \<noteq> z"
    by blast
  with sp have "0 < A * C - B * B"
    unfolding spread_def by blast
  with r show ?thesis by auto
qed

lemma newton_step_fin:
  assumes "newton_step k d n s = Some t" and "all_fin s"
    and "\<forall>i<n. is_fin (k ! i) \<and> is_fin (d ! i)" and "\<exists>i<n. \<exists>j<n. d ! i \<noteq> d ! j"
  shows "all_fin t"
proof -
  from assms(1) obtain dfda dgda dgdb where der: "derivatives d n s = Some (dfda, dgda, dgdb)"
    by (auto simp: newton_step_def split: option.splits)
  from assms(2) have "is_fin (ml_a s)" "is_fin (ml_b s)" by (simp_all add: all_fin_def)
  with der assms(3,4) obtain A B C where r: "dfda = Fin A" "dgda = Fin B" "dgdb = Fin C"
    and reg: "B * B - A * C \<noteq> 0"
    using derivatives_regular by blast
  from assms(2) obtain f g where fg: "ml_f s = Fin f" "ml_g s = Fin g"
    by (auto simp: all_fin_def is_fin_conv)
  let ?da = "Fin ((f * C - g * B) / (B * B - A * C))"
  let ?db = "Fin ((g * A - f * B) / (B * B - A * C))"
  from assms(1) have run: "recompute_fg k d n (s\<lparr>ml_da := ?da, ml_db := ?db\<rparr>) = Some t"
    using reg by (simp add: newton_step_def der r fg Let_def dsub_def)
  have "all_fin (s\<lparr>ml_da := ?da, ml_db := ?db\<rparr>)"
    using assms(2) by (simp add: all_fin_def)
  with run show ?thesis
    using assms(3) by (rule recompute_fg_fin)
qed

lemma traceback_fin:
  assumes run: "traceback k d n oldgrad s = Some t" and fin: "all_fin s"
    and data: "\<forall>i<n. is_fin (k ! i) \<and> is_fin (d ! i)"
  shows "all_fin t"
proof -
  let ?P = "\<lambda>k d n oldgrad s t.
      all_fin s \<and> (\<forall>i<n. is_fin (k ! i) \<and> is_fin (d ! i)) \<longrightarrow> all_fin t"
  have "?P k d n oldgrad s t"
  proof (rule traceback.raw_induct [where P = ?P, OF _ run], intro impI)
    fix tb and k d :: "double list" and n oldgrad s t
    assume IH: "\<And>k d n oldgrad s t. tb k d n oldgrad s = Some t \<Longrightarrow> ?P k d n oldgrad s t"
      and body: "(if dgt (gradient s) oldgrad
          then Option.bind
                 (recompute_fg k d n (s\<lparr>ml_da := ddiv (ml_da s) (Fin 2), ml_db := ddiv (ml_db s) (Fin 2)\<rparr>))
                 (tb k d n oldgrad)
          else Some s) = Some t"
      and h: "all_fin s \<and> (\<forall>i<n. is_fin (k ! i) \<and> is_fin (d ! i))"
    show "all_fin t"
    proof (cases "dgt (gradient s) oldgrad")
      case False
      with body h show ?thesis by simp
    next
      case True
      let ?s = "s\<lparr>ml_da := ddiv (ml_da s) (Fin 2), ml_db := ddiv (ml_db s) (Fin 2)\<rparr>"
      from body True obtain u where u: "recompute_fg k d n ?s = Some u"
        and t: "tb k d n oldgrad u = Some t"
        by (auto simp: bind_eq_Some_conv)
      have "all_fin ?s"
        using h by (simp add: all_fin_def is_fin_half)
      with u have "all_fin u"
        using h by (intro recompute_fg_fin [of k d n ?s u]) simp_all
      with IH [OF t] h show ?thesis by simp
    qed
  qed
  with fin data show ?thesis by blast
qed

lemma newton_raphson_fin:
  assumes run: "newton_raphson k d n s = Some t" and fin: "all_fin s"
    and data: "\<forall>i<n. is_fin (k ! i) \<and> is_fin (d ! i)"
    and two: "\<exists>i<n. \<exists>j<n. d ! i \<noteq> d ! j"
  shows "all_fin t"
proof -
  let ?P = "\<lambda>k d n s t.
      all_fin s \<and> (\<forall>i<n. is_fin (k ! i) \<and> is_fin (d ! i)) \<and>
      (\<exists>i<n. \<exists>j<n. d ! i \<noteq> d ! j) \<longrightarrow> all_fin t"
  have "?P k d n s t"
  proof (rule newton_raphson.raw_induct [where P = ?P, OF _ run], intro impI)
    fix nr and k d :: "double list" and n s t
    assume IH: "\<And>k d n s t. nr k d n s = Some t \<Longrightarrow> ?P k d n s t"
      and body: "(if dgt (gradient s) TOLERANCE
          then Option.bind (newton_step k d n s)
                 (\<lambda>s1. Option.bind (traceback k d n (gradient s) s1)
                    (\<lambda>s2. nr k d n
                       (s2\<lparr>ml_a := dadd (ml_a s2) (ml_da s2), ml_b := dadd (ml_b s2) (ml_db s2)\<rparr>)))
          else Some s) = Some t"
      and h: "all_fin s \<and> (\<forall>i<n. is_fin (k ! i) \<and> is_fin (d ! i)) \<and>
          (\<exists>i<n. \<exists>j<n. d ! i \<noteq> d ! j)"
    show "all_fin t"
    proof (cases "dgt (gradient s) TOLERANCE")
      case False
      with body h show ?thesis by simp
    next
      case True
      from body True obtain s1 s2 where s1: "newton_step k d n s = Some s1"
        and s2: "traceback k d n (gradient s) s1 = Some s2"
        and t: "nr k d n (s2\<lparr>ml_a := dadd (ml_a s2) (ml_da s2), ml_b := dadd (ml_b s2) (ml_db s2)\<rparr>) = Some t"
        by (auto simp: bind_eq_Some_conv)
      from s1 h have "all_fin s1" using newton_step_fin by blast
      with s2 h have "all_fin s2" using traceback_fin by blast
      then have "all_fin (s2\<lparr>ml_a := dadd (ml_a s2) (ml_da s2), ml_b := dadd (ml_b s2) (ml_db s2)\<rparr>)"
        by (simp add: all_fin_def is_fin_dadd)
      with IH [OF t] h show ?thesis by simp
    qed
  qed
  with fin data two show ?thesis by blast
qed

lemma ml_ab_finite:
  assumes run: "ml_ab k d ab n = Some (llik, a', b')"
    and data: "\<forall>i<n. is_fin (k ! i) \<and> is_fin (d ! i)"
    and start: "is_fin (fst ab) \<and> is_fin (snd ab)"
    and two: "\<exists>i<n. \<exists>j<n. d ! i \<noteq> d ! j"
  shows "\<exists>x y. score_F k d n a' b' = Some (Fin x) \<and> score_G k d n a' b' = Some (Fin y) \<and>
           x * x + y * y \<le> 1 / 1000000 \<and> is_fin a' \<and> is_fin b'"
proof -
  let ?s = "\<lparr>ml_a = fst ab, ml_b = snd ab, ml_da = Fin 0, ml_db = Fin 0,
            ml_f = Fin 0, ml_g = Fin 0\<rparr>"
  from run obtain s0 t where s0: "recompute_fg k d n ?s = Some s0"
    and t: "newton_raphson k d n s0 = Some t"
    and ab: "a' = ml_a t" "b' = ml_b t"
    by (auto simp: ml_ab_def split: option.splits)
  have "all_fin ?s" using start by (simp add: all_fin_def)
  with s0 have "all_fin s0" using data by (rule recompute_fg_fin)
  with t have fin: "all_fin t" using data two by (rule newton_raphson_fin)
  from recompute_fg_staged [OF s0] have "settled k d n s0"
    by (auto simp: staged_def settled_def)
  with t have st: "settled k d n t" and ex: "\<not> dgt (gradient t) TOLERANCE"
    using newton_raphson_settled by blast+
  from fin obtain x y where xy: "ml_f t = Fin x" "ml_g t = Fin y"
    by (auto simp: all_fin_def is_fin_conv)
  from ex have "x * x + y * y \<le> 1 / 1000000"
    by (simp add: gradient_def xy TOLERANCE_def dgt_def)
  with st fin show ?thesis
    by (auto simp: settled_def xy ab all_fin_def)
qed

section \<open>Properties of the matrix segmenter\<close>

subsection \<open>The loops as one sequence of writes\<close>

text \<open>
  The three nested loops perform a fixed sequence of writes \<open>(block, matrix cell)\<close>;
  \<open>run\<close> performs such a sequence.
\<close>

fun run :: "'a list \<Rightarrow> (region \<times> nat) list \<Rightarrow> 'a seg_state \<Rightarrow> 'a seg_state option" where
  "run mat [] s = Some s"
| "run mat (c # cs) s =
     (case put (fst c) mat (snd c) s of None \<Rightarrow> None | Some t \<Rightarrow> run mat cs t)"

definition col_cmds :: "nat \<Rightarrow> nat \<Rightarrow> nat \<Rightarrow> nat \<Rightarrow> (region \<times> nat) list" where
  "col_cmds n i j col =
     map (\<lambda>row. (Top, row + col * n)) [0..<i] @
     map (\<lambda>row. (Tri, row + col * n)) [i..<col] @
     map (\<lambda>row. (Bot, row + col * n)) [j + 1..<n]"

definition cmds :: "nat \<Rightarrow> nat \<Rightarrow> nat \<Rightarrow> (region \<times> nat) list" where
  "cmds n i j = concat (map (col_cmds n i j) [i..<j + 1])"

lemma run_append:
  "run mat (xs @ ys) s = (case run mat xs s of None \<Rightarrow> None | Some t \<Rightarrow> run mat ys t)"
  by (induction xs arbitrary: s) (simp_all split: option.splits)

lemma fill_run: "fill r mat n col rows s = run mat (map (\<lambda>row. (r, row + col * n)) rows) s"
  unfolding fill_def
  by (induction rows arbitrary: s) (simp_all split: option.splits)

lemma seg_column_run: "seg_column mat n i j col s = run mat (col_cmds n i j col) s"
  by (simp add: seg_column_def col_cmds_def fill_run run_append split: option.splits)

lemma for_each_columns:
  "for_each cols (seg_column mat n i j) s = run mat (concat (map (col_cmds n i j) cols)) s"
  by (induction cols arbitrary: s) (simp_all add: seg_column_run run_append split: option.splits)

lemma break_in_blocks_run:
  "break_in_blocks mat n i j blocks =
     run mat (cmds n i j) \<lparr>bufs = blocks, counter = (\<lambda>r. 0), writes = []\<rparr>"
  by (simp add: break_in_blocks_def cmds_def for_each_columns)

subsection \<open>The effect of a sequence of writes\<close>

definition of_region :: "region \<Rightarrow> (region \<times> 'b) list \<Rightarrow> (region \<times> 'b) list" where
  "of_region r cs = filter (\<lambda>c. fst c = r) cs"

lemma of_region_simps [simp]:
  "of_region r [] = []"
  "of_region r (c # cs) = (if fst c = r then c # of_region r cs else of_region r cs)"
  "of_region r (xs @ ys) = of_region r xs @ of_region r ys"
  by (simp_all add: of_region_def)

lemma put_Some:
  assumes "put r mat src s = Some t"
  shows "src < length mat" and "counter s r < length (bufs s r)"
    and "bufs t = (bufs s)(r := (bufs s r)[counter s r := mat ! src])"
    and "counter t = (counter s)(r := counter s r + 1)"
    and "writes t = writes s @ [(r, counter s r, src)]"
  using assms by (auto simp: put_def split: if_splits)

lemma run_Cons:
  assumes "run mat (c # cs) s = Some t"
  obtains u where "put (fst c) mat (snd c) s = Some u" and "run mat cs u = Some t"
  using assms by (auto split: option.splits)

lemma run_counter:
  "run mat cs s = Some t \<Longrightarrow> counter t r = counter s r + length (of_region r cs)"
proof (induction cs arbitrary: s)
  case Nil
  then show ?case by simp
next
  case (Cons c cs)
  from Cons.prems obtain u where u: "put (fst c) mat (snd c) s = Some u"
    and t: "run mat cs u = Some t" by (rule run_Cons)
  from Cons.IH [OF t] put_Some(4) [OF u] show ?case by simp
qed

lemma run_length:
  "run mat cs s = Some t \<Longrightarrow> length (bufs t r) = length (bufs s r)"
proof (induction cs arbitrary: s)
  case Nil
  then show ?case by simp
next
  case (Cons c cs)
  from Cons.prems obtain u where u: "put (fst c) mat (snd c) s = Some u"
    and t: "run mat cs u = Some t" by (rule run_Cons)
  from Cons.IH [OF t] put_Some(3) [OF u] show ?case by simp
qed

lemma run_sources:
  "run mat cs s = Some t \<Longrightarrow>
   map (\<lambda>w. snd (snd w)) (writes t) = map (\<lambda>w. snd (snd w)) (writes s) @ map snd cs"
proof (induction cs arbitrary: s)
  case Nil
  then show ?case by simp
next
  case (Cons c cs)
  from Cons.prems obtain u where u: "put (fst c) mat (snd c) s = Some u"
    and t: "run mat cs u = Some t" by (rule run_Cons)
  from Cons.IH [OF t] put_Some(5) [OF u] show ?case by simp
qed

lemma run_in_matrix:
  "run mat cs s = Some t \<Longrightarrow> \<forall>c\<in>set cs. snd c < length mat"
proof (induction cs arbitrary: s)
  case Nil
  then show ?case by simp
next
  case (Cons c cs)
  from Cons.prems obtain u where u: "put (fst c) mat (snd c) s = Some u"
    and t: "run mat cs u = Some t" by (rule run_Cons)
  from Cons.IH [OF t] put_Some(1) [OF u] show ?case by simp
qed

lemma run_positions:
  "run mat cs s = Some t \<Longrightarrow>
   map (\<lambda>w. fst (snd w)) (of_region r (writes s)) = [0..<counter s r] \<Longrightarrow>
   map (\<lambda>w. fst (snd w)) (of_region r (writes t)) = [0..<counter t r]"
proof (induction cs arbitrary: s)
  case Nil
  then show ?case by simp
next
  case (Cons c cs)
  from Cons.prems(1) obtain u where u: "put (fst c) mat (snd c) s = Some u"
    and t: "run mat cs u = Some t" by (rule run_Cons)
  note p = put_Some [OF u]
  have "map (\<lambda>w. fst (snd w)) (of_region r (writes u)) = [0..<counter u r]"
    using Cons.prems(2) p(4,5) by simp
  with t show ?case by (rule Cons.IH)
qed

lemma run_contents:
  "run mat cs s = Some t \<Longrightarrow> counter s r \<le> length (bufs s r) \<Longrightarrow>
   counter t r \<le> length (bufs t r) \<and>
   take (counter t r) (bufs t r) =
     take (counter s r) (bufs s r) @ map (\<lambda>c. mat ! snd c) (of_region r cs)"
proof (induction cs arbitrary: s)
  case Nil
  then show ?case by simp
next
  case (Cons c cs)
  from Cons.prems(1) obtain u where u: "put (fst c) mat (snd c) s = Some u"
    and t: "run mat cs u = Some t" by (rule run_Cons)
  note p = put_Some [OF u]
  show ?case
  proof (cases "fst c = r")
    case True
    have cu: "counter u r = Suc (counter s r)" using p(4) True by simp
    have lt: "counter s r < length (bufs s r)" using p(2) True by simp
    have bu: "bufs u r = (bufs s r)[counter s r := mat ! snd c]" using p(3) True by simp
    have tk: "take (counter u r) (bufs u r) = take (counter s r) (bufs s r) @ [mat ! snd c]"
      using lt by (simp add: cu bu take_Suc_conv_app_nth)
    have "counter u r \<le> length (bufs u r)" using lt by (simp add: cu bu)
    from Cons.IH [OF t this] tk True show ?thesis by simp
  next
    case False
    then have e: "counter u r = counter s r" "bufs u r = bufs s r"
      using p(3,4) by simp_all
    with Cons.prems(2) have "counter u r \<le> length (bufs u r)" by simp
    from Cons.IH [OF t this] e False show ?thesis by simp
  qed
qed

lemma run_succeeds:
  assumes "\<forall>c\<in>set cs. snd c < length mat"
    and "\<forall>r. counter s r + length (of_region r cs) \<le> length (bufs s r)"
  shows "\<exists>t. run mat cs s = Some t"
  using assms
proof (induction cs arbitrary: s)
  case Nil
  then show ?case by simp
next
  case (Cons c cs)
  let ?u = "s\<lparr>bufs := (bufs s)(fst c := (bufs s (fst c))[counter s (fst c) := mat ! snd c]),
              counter := (counter s)(fst c := counter s (fst c) + 1),
              writes := writes s @ [(fst c, counter s (fst c), snd c)]\<rparr>"
  have "counter s (fst c) + length (of_region (fst c) (c # cs)) \<le> length (bufs s (fst c))"
    using Cons.prems(2) by blast
  then have "counter s (fst c) < length (bufs s (fst c))" by simp
  then have u: "put (fst c) mat (snd c) s = Some ?u"
    using Cons.prems(1) by (simp add: put_def)
  have "\<forall>r. counter ?u r + length (of_region r cs) \<le> length (bufs ?u r)"
  proof
    fix r
    from Cons.prems(2) have "counter s r + length (of_region r (c # cs)) \<le> length (bufs s r)"
      by blast
    then show "counter ?u r + length (of_region r cs) \<le> length (bufs ?u r)"
      by (cases "fst c = r") simp_all
  qed
  with Cons.prems(1) have "\<exists>t. run mat cs ?u = Some t"
    by (intro Cons.IH) simp_all
  with u show ?case by simp
qed

subsection \<open>The writes of a call\<close>

lemma of_region_col:
  "of_region r (col_cmds n i j col) = map (\<lambda>row. (r, row + col * n)) (region_rows r n i j col)"
  by (cases r) (simp_all add: col_cmds_def of_region_def filter_map comp_def)

lemma of_region_concat:
  "of_region r (concat xss) = concat (map (of_region r) xss)"
  by (induction xss) simp_all

lemma of_region_cmds: "of_region r (cmds n i j) = map (Pair r) (region_cells r n i j)"
  by (simp add: cmds_def region_cells_def of_region_concat of_region_col map_concat comp_def)

lemma sum_list_const: "sum_list (map (\<lambda>x. c) xs) = c * length (xs :: nat list)" for c :: nat
  by (induction xs) simp_all

lemma twice_triangle:
  "2 * sum_list (map (\<lambda>col. col - i) [i..<i + k]) = (k - 1) * k"
proof (induction k)
  case 0
  then show ?case by simp
next
  case (Suc k)
  have "2 * sum_list (map (\<lambda>col. col - i) [i..<i + Suc k]) =
      2 * sum_list (map (\<lambda>col. col - i) [i..<i + k]) + 2 * k"
    by simp
  also have "\<dots> = (k - 1) * k + 2 * k" by (simp add: Suc.IH)
  also have "\<dots> = (Suc k - 1) * Suc k" by (cases k) simp_all
  finally show ?case .
qed

lemma length_region_cells:
  assumes "i \<le> j"
  shows "length (region_cells r n i j) = region_count r n i j"
proof (cases r)
  case Top
  then show ?thesis
    using assms by (simp add: region_cells_def length_concat comp_def sum_list_const Suc_diff_le)
next
  case Bot
  then show ?thesis
    using assms by (simp add: region_cells_def length_concat comp_def sum_list_const Suc_diff_le)
next
  case Tri
  obtain k where k: "j + 1 = i + k" and k': "k = j - i + 1"
    using assms by (metis Suc_diff_le Suc_eq_plus1 add_Suc_right add_diff_inverse_nat not_less)
  have "length (region_cells Tri n i j) = sum_list (map (\<lambda>col. col - i) [i..<i + k])"
    unfolding region_cells_def k by (simp add: length_concat comp_def)
  then have "2 * length (region_cells Tri n i j) = (k - 1) * k"
    using twice_triangle [of i k] by simp
  then have "length (region_cells Tri n i j) = (k - 1) * k div 2" by simp
  with Tri k' show ?thesis by simp
qed

lemma region_rows_bound:
  "col \<le> j \<Longrightarrow> j < n \<Longrightarrow> i \<le> col \<Longrightarrow> row \<in> set (region_rows r n i j col) \<Longrightarrow> row < n"
  by (cases r) auto

lemma region_cells_bound:
  assumes "j < n" and "c \<in> set (region_cells r n i j)"
  shows "c < n * n"
proof -
  from assms(2) obtain col row where col: "i \<le> col" "col \<le> j"
    and row: "row \<in> set (region_rows r n i j col)" and c: "c = row + col * n"
    by (auto simp: region_cells_def)
  have "row < n" using col assms(1) row by (intro region_rows_bound [of col j n i row r])
  moreover have "col < n" using col assms(1) by simp
  ultimately show ?thesis unfolding c by (rule cell_less)
qed

lemma cmds_bound:
  assumes "j < n" and "c \<in> set (cmds n i j)"
  shows "snd c < n * n"
proof -
  obtain r x where c: "c = (r, x)" by (cases c)
  have "(r, x) \<in> set (of_region r (cmds n i j))"
    using assms(2) by (simp add: of_region_def c)
  then have "x \<in> set (region_cells r n i j)"
    by (auto simp: of_region_cmds)
  with assms(1) have "x < n * n" by (rule region_cells_bound)
  then show ?thesis by (simp add: c)
qed

lemma distinct_cells:
  fixes n :: nat
  assumes "distinct cols" and "\<forall>col\<in>set cols. distinct (rows col) \<and> (\<forall>row\<in>set (rows col). row < n)"
  shows "distinct (concat (map (\<lambda>col. map (\<lambda>row. row + col * n) (rows col)) cols))"
  using assms
proof (induction cols)
  case Nil
  then show ?case by simp
next
  case (Cons c cs)
  have d1: "distinct (map (\<lambda>row. row + c * n) (rows c))"
    using Cons.prems(2) by (auto simp: distinct_map inj_on_def)
  have d2: "distinct (concat (map (\<lambda>col. map (\<lambda>row. row + col * n) (rows col)) cs))"
    using Cons.prems by (intro Cons.IH) simp_all
  have "set (map (\<lambda>row. row + c * n) (rows c)) \<inter>
      set (concat (map (\<lambda>col. map (\<lambda>row. row + col * n) (rows col)) cs)) = {}"
  proof (rule ccontr)
    assume "\<not> ?thesis"
    then obtain row col row' where r: "row \<in> set (rows c)" and cl: "col \<in> set cs"
      and r': "row' \<in> set (rows col)" and e: "row + c * n = row' + col * n"
      by auto
    have "row < n" "row' < n" using Cons.prems(2) r r' cl by auto
    from cell_inj [OF this e] have "c = col" by simp
    with cl Cons.prems(1) show False by simp
  qed
  with d1 d2 show ?case by simp
qed

lemma map_snd_cmds:
  "map snd (cmds n i j) =
     concat (map (\<lambda>col. map (\<lambda>row. row + col * n) ([0..<i] @ [i..<col] @ [j + 1..<n])) [i..<j + 1])"
  by (simp add: cmds_def col_cmds_def map_concat comp_def)

lemma distinct_cmds:
  assumes "j < n"
  shows "distinct (map snd (cmds n i j))"
  unfolding map_snd_cmds
proof (rule distinct_cells)
  show "distinct [i..<j + 1]" by simp
  show "\<forall>col\<in>set [i..<j + 1].
       distinct ([0..<i] @ [i..<col] @ [j + 1..<n]) \<and>
       (\<forall>row\<in>set ([0..<i] @ [i..<col] @ [j + 1..<n]). row < n)"
    using assms by auto
qed

subsection \<open>The capacities\<close>

lemma four_times_product: "4 * (a * b) \<le> (a + b) * (a + b)" for a b :: nat
proof -
  have "a * b + a * b \<le> a * a + b * b"
  proof (cases "a \<le> b")
    case True
    then obtain d where "b = a + d" using le_Suc_ex by blast
    then show ?thesis by (simp add: algebra_simps)
  next
    case False
    then have "b \<le> a" by simp
    then obtain d where "a = b + d" using le_Suc_ex by blast
    then show ?thesis by (simp add: algebra_simps)
  qed
  then show ?thesis by (simp add: algebra_simps)
qed

lemma product_capacity:
  fixes a b n :: nat
  assumes "a + b \<le> n"
  shows "a * b \<le> (n + 1) * (n + 1) div 4"
proof -
  have "4 * (a * b) \<le> (a + b) * (a + b)" by (rule four_times_product)
  also have "\<dots> \<le> (n + 1) * (n + 1)"
    using assms by (intro mult_le_mono) simp_all
  finally show ?thesis by simp
qed

lemma region_count_capacity:
  assumes "i \<le> j" and "j < n"
  shows "region_count r n i j \<le> room n r"
proof (cases r)
  case Top
  have "i * (j - i + 1) \<le> (n + 1) * (n + 1) div 4"
    using assms by (intro product_capacity) simp
  with Top show ?thesis by simp
next
  case Bot
  have "(n - j - 1) * (j - i + 1) \<le> (n + 1) * (n + 1) div 4"
    using assms by (intro product_capacity) simp
  with Bot show ?thesis by simp
next
  case Tri
  have "(j - i) * (j - i + 1) \<le> n * (n + 1)"
    using assms by (intro mult_le_mono) simp_all
  then have "(j - i) * (j - i + 1) div 2 \<le> n * (n + 1) div 2"
    by (rule div_le_mono)
  with Tri show ?thesis by simp
qed

subsection \<open>A call of the segmenter\<close>

lemma break_in_blocks_effect:
  assumes "break_in_blocks mat n i j blocks = Some t" and "i \<le> j"
  shows "counter t r = region_count r n i j"
    and "length (bufs t r) = length (blocks r)"
    and "region_count r n i j \<le> length (blocks r)"
    and "take (region_count r n i j) (bufs t r) = region_values mat r n i j"
    and "map (\<lambda>w. snd (snd w)) (writes t) = map snd (cmds n i j)"
    and "map (\<lambda>w. fst (snd w)) (of_region r (writes t)) = [0..<region_count r n i j]"
proof -
  let ?s = "\<lparr>bufs = blocks, counter = (\<lambda>r. 0), writes = []\<rparr>"
  have run: "run mat (cmds n i j) ?s = Some t"
    using assms(1) by (simp add: break_in_blocks_run)
  have len: "length (of_region r (cmds n i j)) = region_count r n i j"
    using assms(2) by (simp add: of_region_cmds length_region_cells)
  show c: "counter t r = region_count r n i j"
    using run_counter [OF run, of r] len by simp
  show l: "length (bufs t r) = length (blocks r)"
    using run_length [OF run, of r] by simp
  have cont: "counter t r \<le> length (bufs t r) \<and>
      take (counter t r) (bufs t r) =
        take (counter ?s r) (bufs ?s r) @ map (\<lambda>c. mat ! snd c) (of_region r (cmds n i j))"
    by (rule run_contents [OF run]) simp
  then show "region_count r n i j \<le> length (blocks r)"
    using c l by simp
  show "take (region_count r n i j) (bufs t r) = region_values mat r n i j"
    using cont c by (simp add: of_region_cmds region_values_def comp_def)
  show "map (\<lambda>w. snd (snd w)) (writes t) = map snd (cmds n i j)"
    using run_sources [OF run] by simp
  show "map (\<lambda>w. fst (snd w)) (of_region r (writes t)) = [0..<region_count r n i j]"
    using run_positions [OF run, of r] c by simp
qed

lemma break_in_blocks_succeeds:
  assumes "i \<le> j" and "j < n" and "length mat = n * n"
    and "\<forall>r. region_count r n i j \<le> length (blocks r)"
  shows "\<exists>t. break_in_blocks mat n i j blocks = Some t"
  unfolding break_in_blocks_run
proof (rule run_succeeds)
  show "\<forall>c\<in>set (cmds n i j). snd c < length mat"
    using cmds_bound [OF assms(2)] assms(3) by simp
  show "\<forall>r. counter \<lparr>bufs = blocks, counter = \<lambda>r. 0, writes = []\<rparr> r +
        length (of_region r (cmds n i j))
        \<le> length (bufs \<lparr>bufs = blocks, counter = \<lambda>r. 0, writes = []\<rparr> r)"
    using assms(1,4) by (simp add: of_region_cmds length_region_cells)
qed

text \<open>
  The sizes that the code computes are these numbers as long as \<open>(n + 1)\<^sup>2\<close> fits an
  \<^verbatim>\<open>int\<close>; the computation overflows for the first time at \<open>n = 46340\<close>, where
  \<open>n\<^sup>2\<close> still fits.
\<close>

lemma block_capacity_in_range:
  assumes "(n + 1) * (n + 1) \<le> INT_MAX"
  shows "block_capacity n r = Some (room n r)"
proof -
  have a: "n + 1 \<le> INT_MAX" by (rule le_trans [OF _ assms]) simp
  have b: "n * (n + 1) \<le> INT_MAX" by (rule le_trans [OF _ assms]) simp
  from assms a b show ?thesis
    by (cases r) (simp_all add: int_add_def int_mul_def)
qed

lemma block_capacity_Some:
  assumes "block_capacity n r = Some c"
  shows "c = room n r"
  using assms
  by (cases r) (auto simp: int_add_def int_mul_def bind_eq_Some_conv split: if_splits)

lemma block_capacity_overflow:
  "46340 * 46340 \<le> INT_MAX \<and> block_capacity 46340 Top = None \<and>
   block_capacity 46339 Top = Some 536848900"
  by (simp add: INT_MAX_def int_add_def int_mul_def)

section \<open>Properties of the candidate filter\<close>

lemma length_fold_mark [simp]:
  "length (fold (\<lambda>i b. if P i then b[i := v] else b) is bl) = length bl"
  by (induction "is" arbitrary: bl) simp_all




lemma length_mark_local_maxima [simp]:
  "length (mark_local_maxima llik n bkpts) = length bkpts"
  by (simp add: mark_local_maxima_def Let_def)

section \<open>Properties of the dynamic program\<close>

subsection \<open>The loop over the start point\<close>

lemma dlt_trans: "dlt x y \<Longrightarrow> dlt y z \<Longrightarrow> dlt x z"
  by (cases x; cases y; cases z) simp_all

lemma dlt_NaN_right [simp]: "\<not> dlt x NaN"
  by (cases x) simp_all

lemma dlt_NInf_right [simp]: "\<not> dlt x NInf"
  by (cases x) simp_all

lemma dadd_NaN_right [simp]: "dadd x NaN = NaN"
  by (cases x) simp_all

lemma dadd_not_NaN: "dadd x y \<noteq> NaN \<Longrightarrow> x \<noteq> NaN \<and> y \<noteq> NaN"
  by (cases x; cases y) simp_all

lemma dadd_NInf_left: "dlt NInf (dadd x y) \<Longrightarrow> x \<noteq> NInf"
  by (cases x; cases y) simp_all

text \<open>
  The loop over \<open>i\<close> changes only the cell \<open>j\<close> of \<^verbatim>\<open>new_llik\<close> and the variable
  \<^verbatim>\<open>new_breakpoint\<close>; \<open>best_step\<close> is its effect on this pair of values.
\<close>

definition best_step :: "(nat \<Rightarrow> double) \<Rightarrow> nat \<Rightarrow> double \<times> nat \<Rightarrow> double \<times> nat" where
  "best_step tmp i r = (if dgt (tmp i) (fst r) then (tmp i, i - 1) else r)"

definition candidate :: "double list \<Rightarrow> nat \<Rightarrow> double list \<Rightarrow> nat \<Rightarrow> nat \<Rightarrow> double" where
  "candidate llik n old j i = dadd (old ! (i - 1)) (llik ! (i + j * n))"

lemma fold_try_eq:
  "j < length (new_llik s) \<Longrightarrow>
   fold (dp_try llik n j) is s =
     (let r = fold (best_step (candidate llik n (old_llik s) j)) is (new_llik s ! j, new_breakpoint s)
      in s\<lparr>new_llik := (new_llik s)[j := fst r], new_breakpoint := snd r\<rparr>)"
proof (induction "is" arbitrary: s)
  case Nil
  then show ?case by simp
next
  case (Cons i "is")
  let ?t = "dp_try llik n j i s"
  have len: "j < length (new_llik ?t)"
    using Cons.prems by (simp add: dp_try_def Let_def)
  have old: "old_llik ?t = old_llik s"
    by (simp add: dp_try_def Let_def)
  have pair: "(new_llik ?t ! j, new_breakpoint ?t) =
      best_step (candidate llik n (old_llik s) j) i (new_llik s ! j, new_breakpoint s)"
    using Cons.prems by (simp add: dp_try_def Let_def best_step_def candidate_def)
  have upd: "?t\<lparr>new_llik := (new_llik ?t)[j := a], new_breakpoint := b\<rparr> =
      s\<lparr>new_llik := (new_llik s)[j := a], new_breakpoint := b\<rparr>" for a b
    by (simp add: dp_try_def Let_def)
  show ?case
    using Cons.IH [OF len] by (simp add: old pair upd Let_def)
qed

lemma best_fold_cases:
  "fold (best_step tmp) is (b, nb) = (b, nb) \<or>
   (\<exists>i\<in>set is. fold (best_step tmp) is (b, nb) = (tmp i, i - 1) \<and> dgt (tmp i) b)"
proof (induction "is" rule: rev_induct)
  case Nil
  then show ?case by simp
next
  case (snoc x xs)
  let ?r = "fold (best_step tmp) xs (b, nb)"
  show ?case
  proof (cases "dgt (tmp x) (fst ?r)")
    case False
    then have "fold (best_step tmp) (xs @ [x]) (b, nb) = ?r"
      by (simp add: best_step_def)
    with snoc show ?thesis by auto
  next
    case True
    then have r: "fold (best_step tmp) (xs @ [x]) (b, nb) = (tmp x, x - 1)"
      by (simp add: best_step_def)
    from snoc have "fst ?r = b \<or> dgt (fst ?r) b" by auto
    with True have "dgt (tmp x) b"
      by (auto simp: dgt_def intro: dlt_trans)
    with r show ?thesis by simp
  qed
qed

lemma best_fold_upper:
  "i \<in> set is \<Longrightarrow> \<not> dgt (tmp i) (fst (fold (best_step tmp) is (b, nb)))"
proof (induction "is" rule: rev_induct)
  case Nil
  then show ?case by simp
next
  case (snoc x xs)
  let ?r = "fold (best_step tmp) xs (b, nb)"
  show ?case
  proof (cases "dgt (tmp x) (fst ?r)")
    case False
    then have "fold (best_step tmp) (xs @ [x]) (b, nb) = ?r"
      by (simp add: best_step_def)
    with snoc False show ?thesis by auto
  next
    case True
    then have r: "fst (fold (best_step tmp) (xs @ [x]) (b, nb)) = tmp x"
      by (simp add: best_step_def)
    show ?thesis
    proof (cases "i = x")
      case True
      with r show ?thesis by (simp add: dgt_def)
    next
      case False
      with snoc have "\<not> dgt (tmp i) (fst ?r)" by simp
      with True r show ?thesis
        by (auto simp: dgt_def dest: dlt_trans)
    qed
  qed
qed

subsection \<open>The loop over the end point\<close>

lemma update_fold_eq:
  "fold (\<lambda>i t. t\<lparr>new_bkpt_list :=
       (new_bkpt_list t)[j + i * n := old_bkpt_list t ! (new_breakpoint t + i * n)]\<rparr>) is s =
   s\<lparr>new_bkpt_list :=
       fold (\<lambda>i b. b[j + i * n := old_bkpt_list s ! (new_breakpoint s + i * n)]) is (new_bkpt_list s)\<rparr>"
  by (induction "is" arbitrary: s) simp_all

lemma update_list_eq:
  "dp_update_list n j s =
     (if dgt (new_llik s ! j) NInf
      then s\<lparr>new_bkpt_list :=
             (fold (\<lambda>i b. b[j + i * n := old_bkpt_list s ! (new_breakpoint s + i * n)]) [0..<n]
                (new_bkpt_list s))[j + new_breakpoint s * n := 1]\<rparr>
      else s)"
  by (simp add: dp_update_list_def update_fold_eq Let_def)

lemma end_point_eq:
  assumes "j < length (new_llik s)"
  shows "dp_end_point llik n j s =
     (let r = fold (best_step (candidate llik n (old_llik s) j)) [3 * nbreaks s..<j - 1]
                (NInf, new_breakpoint s)
      in dp_update_list n j (s\<lparr>new_llik := (new_llik s)[j := fst r], new_breakpoint := snd r\<rparr>))"
proof -
  let ?s0 = "s\<lparr>new_llik := (new_llik s)[j := NInf]\<rparr>"
  have "j < length (new_llik ?s0)" using assms by simp
  from fold_try_eq [OF this, of llik n "[3 * nbreaks s..<j - 1]"] assms
  show ?thesis by (simp add: dp_end_point_def Let_def)
qed

text \<open>
  A breakpoint list is well formed when it has \<open>n * n\<close> cells, each 0 or 1, and a cell
  \<open>p + q * n\<close> holding 1 has \<open>q < p\<close>: a marked position lies before the end point.
\<close>

definition bkpt_ok :: "nat \<Rightarrow> int list \<Rightarrow> bool" where
  "bkpt_ok n bl \<longleftrightarrow>
     length bl = n * n \<and>
     (\<forall>p<n. \<forall>q<n. bl ! (p + q * n) = 0 \<or> (bl ! (p + q * n) = 1 \<and> q < p))"

lemma update_list_ok:
  assumes new: "bkpt_ok n new" and old: "bkpt_ok n old" and j: "j < n" and nb: "nb < j"
  shows "bkpt_ok n ((fold (\<lambda>i b. b[j + i * n := old ! (nb + i * n)]) [0..<n] new)[j + nb * n := 1])"
    (is "bkpt_ok n (?F[_ := 1])")
  unfolding bkpt_ok_def
proof (intro conjI allI impI)
  show "length (?F[j + nb * n := 1]) = n * n"
    using new by (simp add: bkpt_ok_def)
next
  fix p q
  assume p: "p < n" and q: "q < n"
  have lenF: "length ?F = n * n" using new by (simp add: bkpt_ok_def)
  have nbn: "nb < n" using nb j by simp
  let ?v = "?F[j + nb * n := 1] ! (p + q * n)"
  show "?v = 0 \<or> (?v = 1 \<and> q < p)"
  proof (cases "p = j")
    case False
    have ne: "p + q * n \<noteq> j + nb * n"
      using cell_inj [OF p j, of q nb] False by auto
    have "p + q * n \<notin> (\<lambda>i. j + i * n) ` set [0..<n]"
      using cell_inj [OF p j, of q] False by auto
    then have "?F ! (p + q * n) = new ! (p + q * n)"
      by (rule fold_update_other)
    with ne have "?v = new ! (p + q * n)" by simp
    with new p q show ?thesis by (simp add: bkpt_ok_def)
  next
    case True
    show ?thesis
    proof (cases "q = nb")
      case True
      with \<open>p = j\<close> have "?v = 1"
        using lenF cell_less [OF j nbn] by simp
      with True \<open>p = j\<close> nb show ?thesis by simp
    next
      case False
      then have ne: "j + q * n \<noteq> j + nb * n"
        using j by simp
      have inj: "inj_on (\<lambda>i. j + i * n) (set [0..<n])"
        using j by (simp add: inj_on_def)
      have "?F ! (j + q * n) = old ! (nb + q * n)"
        using fold_update_hit [OF inj, of q new "\<lambda>i. old ! (nb + i * n)"] q new cell_less [OF j q]
        by (simp add: bkpt_ok_def)
      with ne \<open>p = j\<close> have v: "?v = old ! (nb + q * n)" by simp
      from old nbn q have "old ! (nb + q * n) = 0 \<or> (old ! (nb + q * n) = 1 \<and> q < nb)"
        by (simp add: bkpt_ok_def)
      with v nb \<open>p = j\<close> show ?thesis by auto
    qed
  qed
qed

definition dp_inv :: "nat \<Rightarrow> dp_state \<Rightarrow> bool" where
  "dp_inv n s \<longleftrightarrow>
     length (new_llik s) = n \<and> bkpt_ok n (new_bkpt_list s) \<and> bkpt_ok n (old_bkpt_list s)"

lemma end_point_inv:
  assumes inv: "dp_inv n s" and j: "j < n"
  shows "dp_inv n (dp_end_point llik n j s)"
proof -
  define r where "r = fold (best_step (candidate llik n (old_llik s) j)) [3 * nbreaks s..<j - 1]
                (NInf, new_breakpoint s)"
  have len: "j < length (new_llik s)" using inv j by (simp add: dp_inv_def)
  have eq: "dp_end_point llik n j s =
      dp_update_list n j (s\<lparr>new_llik := (new_llik s)[j := fst r], new_breakpoint := snd r\<rparr>)"
    using end_point_eq [OF len, of llik n] by (simp add: r_def Let_def)
  show ?thesis
  proof (cases "dgt (fst r) NInf")
    case False
    with eq len inv show ?thesis
      by (simp add: update_list_eq dp_inv_def)
  next
    case True
    then have "r \<noteq> (NInf, new_breakpoint s)" by (auto simp: dgt_def)
    with best_fold_cases [of "candidate llik n (old_llik s) j" "[3 * nbreaks s..<j - 1]" NInf "new_breakpoint s"]
    obtain i where "i \<in> set [3 * nbreaks s..<j - 1]" and "snd r = i - 1"
      by (auto simp: r_def)
    then have nb: "snd r < j" by auto
    from update_list_ok [OF _ _ j nb, of "new_bkpt_list s" "old_bkpt_list s"] inv
    have "bkpt_ok n ((fold (\<lambda>i b. b[j + i * n := old_bkpt_list s ! (snd r + i * n)]) [0..<n]
                (new_bkpt_list s))[j + snd r * n := 1])"
      by (simp add: dp_inv_def)
    with eq len inv True show ?thesis
      by (simp add: update_list_eq dp_inv_def)
  qed
qed

lemma fold_end_point_inv:
  "dp_inv n s \<Longrightarrow> \<forall>j\<in>set js. j < n \<Longrightarrow> dp_inv n (fold (dp_end_point llik n) js s)"
  by (induction js arbitrary: s) (simp_all add: end_point_inv)

lemma round_inv:
  assumes "dp_inv n s"
  shows "dp_inv n (dp_round llik n s)"
proof -
  let ?s1 = "s\<lparr>nbreaks := nbreaks s + 1\<rparr>"
  let ?s2 = "?s1\<lparr>old_bkpt_list := copy_cells (all_cells n) (new_bkpt_list ?s1) (old_bkpt_list ?s1)\<rparr>"
  have "copy_cells (all_cells n) (new_bkpt_list s) (old_bkpt_list s) = new_bkpt_list s"
    using assms by (intro copy_cells_all) (simp_all add: dp_inv_def bkpt_ok_def set_all_cells)
  with assms have "dp_inv n ?s2" by (simp add: dp_inv_def)
  then have "dp_inv n (fold (dp_end_point llik n) [3 * nbreaks ?s2 + 2..<n] ?s2)"
    by (rule fold_end_point_inv) simp
  then show ?thesis
    by (simp add: dp_round_def Let_def dp_inv_def)
qed

lemma loop_inv: "dp_inv n s \<Longrightarrow> dp_inv n (dp_loop llik n s)"
proof (induction llik n s rule: dp_loop.induct)
  case (1 llik n s)
  show ?case
  proof (cases "dlt (old_full_llik s) (new_full_llik s)")
    case True
    with 1 show ?thesis by (subst dp_loop.simps) (simp add: round_inv)
  next
    case False
    with 1 show ?thesis by (subst dp_loop.simps) simp
  qed
qed

lemma init_inv: "length junk = n \<Longrightarrow> dp_inv n (dp_init junk llik n)"
  by (simp add: dp_init_def dp_inv_def bkpt_ok_def Let_def cell_less)


subsection \<open>What a round computes\<close>

text \<open>The best score of an end point: the result of the loop over \<open>i\<close>, started at \<open>-\<infinity>\<close>.\<close>

definition best_score :: "(nat \<Rightarrow> double) \<Rightarrow> nat list \<Rightarrow> double" where
  "best_score tmp is = fst (fold (best_step tmp) is (NInf, 0))"

lemma fst_fold_best:
  "fst (fold (best_step tmp) is (b, nb)) = fst (fold (best_step tmp) is (b, nb'))"
proof (induction "is" rule: rev_induct)
  case Nil
  then show ?case by simp
next
  case (snoc x xs)
  then show ?case by (simp add: best_step_def)
qed

lemma best_score_fold: "fst (fold (best_step tmp) is (NInf, nb)) = best_score tmp is"
  unfolding best_score_def by (rule fst_fold_best)

lemma best_score_upper: "i \<in> set is \<Longrightarrow> \<not> dgt (tmp i) (best_score tmp is)"
  unfolding best_score_def by (rule best_fold_upper)

lemma best_score_cases:
  "best_score tmp is = NInf \<or> (\<exists>i\<in>set is. best_score tmp is = tmp i \<and> dgt (tmp i) NInf)"
  using best_fold_cases [of tmp "is" NInf 0] unfolding best_score_def by auto

lemma end_point_new_llik:
  assumes "j < length (new_llik s)"
  shows "new_llik (dp_end_point llik n j s) =
         (new_llik s)[j := best_score (candidate llik n (old_llik s) j) [3 * nbreaks s..<j - 1]]"
  using end_point_eq [OF assms, of llik n]
  by (simp add: Let_def update_list_eq best_score_fold)

lemma end_point_old_llik:
  assumes "j < length (new_llik s)"
  shows "old_llik (dp_end_point llik n j s) = old_llik s"
  using end_point_eq [OF assms, of llik n]
  by (simp add: Let_def update_list_eq)

lemma fold_end_point_llik:
  assumes "\<forall>j\<in>set js. j < length (new_llik s)" and "distinct js"
  shows "length (new_llik (fold (dp_end_point llik n) js s)) = length (new_llik s) \<and>
         old_llik (fold (dp_end_point llik n) js s) = old_llik s \<and>
         (\<forall>j. new_llik (fold (dp_end_point llik n) js s) ! j =
            (if j \<in> set js
             then best_score (candidate llik n (old_llik s) j) [3 * nbreaks s..<j - 1]
             else new_llik s ! j))"
  using assms
proof (induction js arbitrary: s)
  case Nil
  then show ?case by simp
next
  case (Cons x xs)
  let ?t = "dp_end_point llik n x s"
  have x: "x < length (new_llik s)" using Cons.prems by simp
  have new: "new_llik ?t =
      (new_llik s)[x := best_score (candidate llik n (old_llik s) x) [3 * nbreaks s..<x - 1]]"
    by (rule end_point_new_llik [OF x])
  have old: "old_llik ?t = old_llik s"
    by (rule end_point_old_llik [OF x])
  have "\<forall>j\<in>set xs. j < length (new_llik ?t)"
    using Cons.prems by (simp add: new)
  moreover have "distinct xs" using Cons.prems by simp
  ultimately have IH: "length (new_llik (fold (dp_end_point llik n) xs ?t)) = length (new_llik ?t) \<and>
         old_llik (fold (dp_end_point llik n) xs ?t) = old_llik ?t \<and>
         (\<forall>j. new_llik (fold (dp_end_point llik n) xs ?t) ! j =
            (if j \<in> set xs
             then best_score (candidate llik n (old_llik ?t) j) [3 * nbreaks ?t..<j - 1]
             else new_llik ?t ! j))"
    by (rule Cons.IH)
  have "x \<notin> set xs" using Cons.prems by simp
  with IH x show ?case
    by (auto simp: new old)
qed

lemma round_scores:
  assumes len: "length (new_llik s) = n"
  shows "length (new_llik (dp_round llik n s)) = n"
    and "new_llik (dp_round llik n s) ! j =
           (if 3 * (nbreaks s + 1) + 2 \<le> j \<and> j < n
            then best_score (candidate llik n (old_llik s) j) [3 * (nbreaks s + 1)..<j - 1]
            else new_llik s ! j)"
proof -
  let ?s2 = "s\<lparr>nbreaks := nbreaks s + 1,
      old_bkpt_list := copy_cells (all_cells n) (new_bkpt_list s) (old_bkpt_list s)\<rparr>"
  let ?js = "[3 * (nbreaks s + 1) + 2..<n]"
  have "\<forall>j\<in>set ?js. j < length (new_llik ?s2)" using len by simp
  moreover have "distinct ?js" by simp
  ultimately have f: "length (new_llik (fold (dp_end_point llik n) ?js ?s2)) = length (new_llik ?s2) \<and>
         old_llik (fold (dp_end_point llik n) ?js ?s2) = old_llik ?s2 \<and>
         (\<forall>j. new_llik (fold (dp_end_point llik n) ?js ?s2) ! j =
            (if j \<in> set ?js
             then best_score (candidate llik n (old_llik ?s2) j) [3 * nbreaks ?s2..<j - 1]
             else new_llik ?s2 ! j))"
    by (rule fold_end_point_llik)
  have nl: "new_llik (dp_round llik n s) = new_llik (fold (dp_end_point llik n) ?js ?s2)"
    by (simp add: dp_round_def Let_def)
  show "length (new_llik (dp_round llik n s)) = n"
    using f len by (simp add: nl)
  show "new_llik (dp_round llik n s) ! j =
           (if 3 * (nbreaks s + 1) + 2 \<le> j \<and> j < n
            then best_score (candidate llik n (old_llik s) j) [3 * (nbreaks s + 1)..<j - 1]
            else new_llik s ! j)"
    using f by (simp add: nl)
qed

lemma round_old_llik:
  assumes "length (new_llik s) = n" and "length (old_llik s) = n"
  shows "old_llik (dp_round llik n s) = new_llik (dp_round llik n s)"
proof -
  let ?s2 = "s\<lparr>nbreaks := nbreaks s + 1,
      old_bkpt_list := copy_cells (all_cells n) (new_bkpt_list s) (old_bkpt_list s)\<rparr>"
  let ?js = "[3 * (nbreaks s + 1) + 2..<n]"
  let ?s3 = "fold (dp_end_point llik n) ?js ?s2"
  have "\<forall>j\<in>set ?js. j < length (new_llik ?s2)" using assms(1) by simp
  moreover have "distinct ?js" by simp
  ultimately have f: "length (new_llik ?s3) = length (new_llik ?s2) \<and>
         old_llik ?s3 = old_llik ?s2 \<and>
         (\<forall>j. new_llik ?s3 ! j =
            (if j \<in> set ?js
             then best_score (candidate llik n (old_llik ?s2) j) [3 * nbreaks ?s2..<j - 1]
             else new_llik ?s2 ! j))"
    by (rule fold_end_point_llik)
  have "copy_cells [0..<n] (new_llik ?s3) (old_llik ?s3) = new_llik ?s3"
    using f assms by (intro copy_cells_all) simp_all
  then show ?thesis
    by (simp add: dp_round_def Let_def)
qed

lemma after_lengths:
  "length junk = n \<Longrightarrow>
   length (new_llik (dp_after junk llik n k)) = n \<and>
   length (old_llik (dp_after junk llik n k)) = n \<and>
   nbreaks (dp_after junk llik n k) = k"
proof (induction k)
  case 0
  then show ?case by (simp add: dp_after_def dp_init_def Let_def)
next
  case (Suc k)
  then have l: "length (new_llik (dp_after junk llik n k)) = n"
    and o: "length (old_llik (dp_after junk llik n k)) = n"
    and b: "nbreaks (dp_after junk llik n k) = k" by simp_all
  have step: "dp_after junk llik n (Suc k) = dp_round llik n (dp_after junk llik n k)"
    by (simp add: dp_after_def)
  have "length (new_llik (dp_round llik n (dp_after junk llik n k))) = n"
    by (rule round_scores(1) [OF l])
  moreover have "old_llik (dp_round llik n (dp_after junk llik n k)) =
      new_llik (dp_round llik n (dp_after junk llik n k))"
    by (rule round_old_llik [OF l o])
  ultimately show ?case using b by (simp add: step)
qed

section \<open>Properties of the likelihood matrix\<close>

subsection \<open>One entry\<close>

lemma ml_ab_region:
  assumes "take (region_count r n i j) kb = region_values mat r n i j"
    and "take (region_count r n i j) db = region_values dis r n i j"
  shows "ml_ab kb db ab (region_count r n i j) = fit_region mat dis r n i j ab"
proof -
  let ?L = "region_count r n i j"
  have "take ?L (region_values mat r n i j) = take ?L kb"
    using assms(1) by (metis take_take min.idem)
  moreover have "take ?L (region_values dis r n i j) = take ?L db"
    using assms(2) by (metis take_take min.idem)
  ultimately show ?thesis
    unfolding fit_region_def by (intro ml_ab_prefix) simp_all
qed

lemma fit_replicate_effect:
  assumes run: "fit_replicate obs n i j k s = Some t" and ij: "i \<le> j"
    and dblk: "\<forall>r. take (region_count r n i j) (t_d_blk s r) = region_values dis r n i j"
  shows "\<exists>mat e. rd obs k = Some mat \<and>
           replicate_term mat dis n i j (t_ab s) = Some (e, t_ab t) \<and>
           t_llik t = (t_llik s)[i + j * n := dadd (t_llik s ! (i + j * n)) e] \<and>
           t_d_blk t = t_d_blk s"
proof -
  from run obtain mat and seg :: "double seg_state" and top_fit ab0 tri_fit ab1 bot_fit ab2 where
    mat: "rd obs k = Some mat"
    and seg: "break_in_blocks mat n i j (t_k_blk s) = Some seg"
    and f0: "ml_ab (bufs seg Top) (t_d_blk s Top) (t_ab s Top) (i * (j - i + 1)) = Some (top_fit, ab0)"
    and f1: "ml_ab (bufs seg Tri) (t_d_blk s Tri) (t_ab s Tri) ((j - i) * (j - i + 1) div 2)
               = Some (tri_fit, ab1)"
    and f2: "ml_ab (bufs seg Bot) (t_d_blk s Bot) (t_ab s Bot) ((n - j - 1) * (j - i + 1))
               = Some (bot_fit, ab2)"
    and t: "t = s\<lparr>t_k_blk := bufs seg,
                  t_ab := (t_ab s)(Top := ab0, Tri := ab1, Bot := ab2),
                  t_llik := (t_llik s)[i + j * n :=
                     dadd (t_llik s ! (i + j * n))
                          (dadd (dadd (ddiv top_fit (Fin 2)) tri_fit)
                                (ddiv bot_fit (Fin 2)))]\<rparr>"
    unfolding fit_replicate_def by (auto split: option.splits)
  have kblk: "take (region_count r n i j) (bufs seg r) = region_values mat r n i j" for r
    by (rule break_in_blocks_effect(4) [OF seg ij])
  have fit: "ml_ab (bufs seg r) (t_d_blk s r) ab (region_count r n i j) = fit_region mat dis r n i j ab"
    for r ab
    using kblk [of r] dblk by (intro ml_ab_region) simp_all
  have "fit_region mat dis Top n i j (t_ab s Top) = Some (top_fit, ab0)"
    using f0 fit [of Top] by simp
  moreover have "fit_region mat dis Tri n i j (t_ab s Tri) = Some (tri_fit, ab1)"
    using f1 fit [of Tri] by simp
  moreover have "fit_region mat dis Bot n i j (t_ab s Bot) = Some (bot_fit, ab2)"
    using f2 fit [of Bot] by simp
  ultimately have "replicate_term mat dis n i j (t_ab s) =
      Some (dadd (dadd (ddiv top_fit (Fin 2)) tri_fit) (ddiv bot_fit (Fin 2)), t_ab t)"
    by (simp add: replicate_term_def t)
  with mat t show ?thesis by simp
qed

lemma fit_loop_effect:
  assumes "for_each ks (fit_replicate obs n i j) s = Some t" and "i \<le> j"
    and "\<forall>r. take (region_count r n i j) (t_d_blk s r) = region_values dis r n i j"
    and "i + j * n < length (t_llik s)"
  shows "\<exists>ab'. for_each ks
             (\<lambda>k (acc, ab). case rd obs k of
                 None \<Rightarrow> None
               | Some mat \<Rightarrow>
                   (case replicate_term mat dis n i j ab of
                      None \<Rightarrow> None
                    | Some (e, ab') \<Rightarrow> Some (dadd acc e, ab')))
             (t_llik s ! (i + j * n), t_ab s) = Some (t_llik t ! (i + j * n), ab') \<and>
           t_llik t = (t_llik s)[i + j * n := t_llik t ! (i + j * n)]"
  using assms
proof (induction ks arbitrary: s)
  case Nil
  then show ?case by simp
next
  case (Cons k ks)
  let ?c = "i + j * n"
  from Cons.prems(1) obtain u where u: "fit_replicate obs n i j k s = Some u"
    and t: "for_each ks (fit_replicate obs n i j) u = Some t"
    by (auto split: option.splits)
  from fit_replicate_effect [OF u Cons.prems(2,3)] obtain mat e where
    mat: "rd obs k = Some mat"
    and rt: "replicate_term mat dis n i j (t_ab s) = Some (e, t_ab u)"
    and lu: "t_llik u = (t_llik s)[?c := dadd (t_llik s ! ?c) e]"
    and du: "t_d_blk u = t_d_blk s"
    by blast
  have cu: "?c < length (t_llik u)" using Cons.prems(4) by (simp add: lu)
  have uc: "t_llik u ! ?c = dadd (t_llik s ! ?c) e" using Cons.prems(4) by (simp add: lu)
  from Cons.IH [OF t Cons.prems(2) _ cu] Cons.prems(3) du obtain ab' where
    rest: "for_each ks
             (\<lambda>k (acc, ab). case rd obs k of
                 None \<Rightarrow> None
               | Some mat \<Rightarrow>
                   (case replicate_term mat dis n i j ab of
                      None \<Rightarrow> None
                    | Some (e, ab') \<Rightarrow> Some (dadd acc e, ab')))
             (t_llik u ! ?c, t_ab u) = Some (t_llik t ! ?c, ab')"
    and lt: "t_llik t = (t_llik u)[?c := t_llik t ! ?c]"
    by auto
  have "t_llik t = (t_llik s)[?c := t_llik t ! ?c]"
    using lt by (simp add: lu)
  with rest mat rt uc show ?case by auto
qed

lemma segment_pair_effect:
  assumes run: "segment_pair obs dis n m i j s = Some t" and ij: "i \<le> j"
    and c: "i + j * n < length (t_llik s)"
  shows "\<exists>ab'. entry_by_spec obs dis n m i j (t_ab s) = Some (t_llik t ! (i + j * n), ab') \<and>
           t_llik t = (t_llik s)[i + j * n := t_llik t ! (i + j * n)]"
proof -
  let ?c = "i + j * n"
  from run obtain seg :: "double seg_state" where seg: "break_in_blocks dis n i j (t_d_blk s) = Some seg"
    and loop: "for_each [0..<m] (fit_replicate obs n i j)
        (s\<lparr>t_d_blk := bufs seg, t_llik := (t_llik s)[?c := Fin 0]\<rparr>) = Some t"
    unfolding segment_pair_def by (auto split: option.splits)
  let ?s1 = "s\<lparr>t_d_blk := bufs seg, t_llik := (t_llik s)[?c := Fin 0]\<rparr>"
  have d: "\<forall>r. take (region_count r n i j) (t_d_blk ?s1 r) = region_values dis r n i j"
    using break_in_blocks_effect(4) [OF seg ij] by simp
  have c1: "?c < length (t_llik ?s1)" using c by simp
  from fit_loop_effect [OF loop ij d c1] c obtain ab' where
    "entry_by_spec obs dis n m i j (t_ab s) = Some (t_llik t ! ?c, ab')"
    and "t_llik t = (t_llik s)[?c := Fin 0, ?c := t_llik t ! ?c]"
    unfolding entry_by_spec_def by auto
  then show ?thesis by auto
qed

subsection \<open>The entries a loop stores\<close>

text \<open>
  From the state \<open>s\<close> to the state \<open>t\<close> the entries of the pairs in \<open>X\<close> have been
  stored, each with the value the design gives, and every other cell of the
  likelihood matrix is as before.
\<close>

definition stores ::
  "double list list \<Rightarrow> double list \<Rightarrow> nat \<Rightarrow> nat \<Rightarrow> (nat \<times> nat) set \<Rightarrow> fit_state \<Rightarrow> fit_state \<Rightarrow> bool" where
  "stores obs dis n m X s t \<longleftrightarrow>
     length (t_llik t) = length (t_llik s) \<and>
     (\<forall>i j. (i, j) \<in> X \<longrightarrow>
        (\<exists>ab ab'. entry_by_spec obs dis n m i j ab = Some (t_llik t ! (i + j * n), ab'))) \<and>
     (\<forall>c. (\<forall>i j. (i, j) \<in> X \<longrightarrow> c \<noteq> i + j * n) \<longrightarrow> t_llik t ! c = t_llik s ! c)"

lemma stores_skip: "stores obs dis n m {} s s"
  by (simp add: stores_def)

lemma stores_pair:
  assumes "segment_pair obs dis n m i j s = Some t" and "i \<le> j"
    and "i + j * n < length (t_llik s)"
  shows "stores obs dis n m {(i, j)} s t"
proof -
  from segment_pair_effect [OF assms] obtain ab' where
    e: "entry_by_spec obs dis n m i j (t_ab s) = Some (t_llik t ! (i + j * n), ab')"
    and l: "t_llik t = (t_llik s)[i + j * n := t_llik t ! (i + j * n)]"
    by blast
  have "length (t_llik t) = length (t_llik s)"
    by (subst l) simp
  moreover have "t_llik t ! c = t_llik s ! c" if "c \<noteq> i + j * n" for c
    using that by (subst l) simp
  ultimately show ?thesis
    using e unfolding stores_def by auto
qed

lemma stores_trans:
  assumes st: "stores obs dis n m X s t" and tu: "stores obs dis n m Y t u"
    and valid: "\<forall>i j. (i, j) \<in> X \<union> Y \<longrightarrow> i < n"
  shows "stores obs dis n m (X \<union> Y) s u"
  unfolding stores_def
proof (intro conjI allI impI)
  show "length (t_llik u) = length (t_llik s)"
    using st tu by (simp add: stores_def)
next
  fix i j
  assume ij: "(i, j) \<in> X \<union> Y"
  show "\<exists>ab ab'. entry_by_spec obs dis n m i j ab = Some (t_llik u ! (i + j * n), ab')"
  proof (cases "(i, j) \<in> Y")
    case True
    with tu show ?thesis by (simp add: stores_def)
  next
    case False
    with ij have x: "(i, j) \<in> X" by simp
    have "\<forall>i' j'. (i', j') \<in> Y \<longrightarrow> i + j * n \<noteq> i' + j' * n"
    proof (intro allI impI)
      fix i' j'
      assume y: "(i', j') \<in> Y"
      have "i < n" "i' < n" using valid x y by auto
      from cell_inj [OF this] y False show "i + j * n \<noteq> i' + j' * n" by auto
    qed
    with tu have "t_llik u ! (i + j * n) = t_llik t ! (i + j * n)"
      by (simp add: stores_def)
    with st x show ?thesis by (simp add: stores_def)
  qed
next
  fix c
  assume "\<forall>i j. (i, j) \<in> X \<union> Y \<longrightarrow> c \<noteq> i + j * n"
  then have "\<forall>i j. (i, j) \<in> X \<longrightarrow> c \<noteq> i + j * n" and "\<forall>i j. (i, j) \<in> Y \<longrightarrow> c \<noteq> i + j * n"
    by auto
  with st tu show "t_llik u ! c = t_llik s ! c"
    by (simp add: stores_def)
qed

lemma stores_for_each:
  assumes "for_each xs body s = Some t" and "length (t_llik s) = N"
    and "\<And>x u v. x \<in> set xs \<Longrightarrow> body x u = Some v \<Longrightarrow> length (t_llik u) = N \<Longrightarrow>
           stores obs dis n m (F x) u v"
    and "\<And>x i j. x \<in> set xs \<Longrightarrow> (i, j) \<in> F x \<Longrightarrow> i < n"
  shows "stores obs dis n m (\<Union>x\<in>set xs. F x) s t"
  using assms
proof (induction xs arbitrary: s)
  case Nil
  then show ?case by (simp add: stores_skip)
next
  case (Cons x xs)
  from Cons.prems(1) obtain u where u: "body x s = Some u" and t: "for_each xs body u = Some t"
    by (auto split: option.splits)
  have su: "stores obs dis n m (F x) s u"
    using Cons.prems(3) [OF _ u Cons.prems(2)] by simp
  then have lu: "length (t_llik u) = N"
    using Cons.prems(2) by (simp add: stores_def)
  have ut: "stores obs dis n m (\<Union>x\<in>set xs. F x) u t"
  proof (rule Cons.IH [OF t lu])
    fix y v w
    assume "y \<in> set xs" and "body y v = Some w" and "length (t_llik v) = N"
    then show "stores obs dis n m (F y) v w"
      using Cons.prems(3) [of y v w] by simp
  next
    fix y i j
    assume "y \<in> set xs" and "(i, j) \<in> F y"
    then show "i < n"
      using Cons.prems(4) [of y i j] by simp
  qed
  have "stores obs dis n m (F x \<union> (\<Union>x\<in>set xs. F x)) s t"
    using su ut
  proof (rule stores_trans)
    show "\<forall>i j. (i, j) \<in> F x \<union> (\<Union>x\<in>set xs. F x) \<longrightarrow> i < n"
      using Cons.prems(4) by auto
  qed
  then show ?case by simp
qed

subsection \<open>The whole matrix\<close>

lemma scan_end_points_stores:
  assumes run: "scan_end_points obs dis n m bkpts i s = Some t"
    and i: "i < n" and len: "length (t_llik s) = n * n"
  shows "stores obs dis n m {(i', j). i' = i \<and> i + 2 \<le> j \<and> j < n \<and> bkpts ! j = 1} s t"
proof -
  let ?F = "\<lambda>j. if bkpts ! j = 1 then {(i, j)} else {}"
  have "stores obs dis n m (\<Union>j\<in>set [i + 2..<n]. ?F j) s t"
  proof (rule stores_for_each [OF run [unfolded scan_end_points_def] len])
    fix j u v
    assume j: "j \<in> set [i + 2..<n]"
      and b: "(if bkpts ! j \<noteq> 1 then Some u else segment_pair obs dis n m i j u) = Some v"
      and lu: "length (t_llik u) = n * n"
    show "stores obs dis n m (?F j) u v"
    proof (cases "bkpts ! j = 1")
      case False
      with b show ?thesis by (simp add: stores_skip)
    next
      case True
      with b have sp: "segment_pair obs dis n m i j u = Some v" by simp
      have "j < n" "i \<le> j" using j by simp_all
      with i lu have "i + j * n < length (t_llik u)" by (simp add: cell_less)
      from stores_pair [OF sp \<open>i \<le> j\<close> this] True show ?thesis by simp
    qed
  next
    fix j i' j'
    assume "j \<in> set [i + 2..<n]" and "(i', j') \<in> ?F j"
    with i show "i' < n" by (auto split: if_splits)
  qed
  moreover have "(\<Union>j\<in>set [i + 2..<n]. ?F j) =
      {(i', j). i' = i \<and> i + 2 \<le> j \<and> j < n \<and> bkpts ! j = 1}"
    by (auto split: if_splits)
  ultimately show ?thesis by simp
qed

lemma likelihood_matrix_stores:
  assumes run: "likelihood_matrix obs dis n m bkpts s = Some t"
    and len: "length (t_llik s) = n * n"
  shows "stores obs dis n m {(i, j). computed_pair n bkpts i j} s t"
proof -
  let ?F = "\<lambda>i. if 0 < i \<and> bkpts ! (i - 1) \<noteq> 1 then {}
                else {(i', j). i' = i \<and> i + 2 \<le> j \<and> j < n \<and> bkpts ! j = 1}"
  have "stores obs dis n m (\<Union>i\<in>set [0..<n - 2]. ?F i) s t"
  proof (rule stores_for_each [OF run [unfolded likelihood_matrix_def] len])
    fix i u v
    assume i: "i \<in> set [0..<n - 2]"
      and b: "(if 0 < i \<and> bkpts ! (i - 1) \<noteq> 1 then Some u
               else scan_end_points obs dis n m bkpts i u) = Some v"
      and lu: "length (t_llik u) = n * n"
    show "stores obs dis n m (?F i) u v"
    proof (cases "0 < i \<and> bkpts ! (i - 1) \<noteq> 1")
      case True
      with b show ?thesis by (simp add: stores_skip)
    next
      case False
      with b have sc: "scan_end_points obs dis n m bkpts i u = Some v"
        by (simp split: if_splits)
      have "i < n" using i by simp
      from scan_end_points_stores [OF sc this lu] False show ?thesis by auto
    qed
  next
    fix i i' j'
    assume "i \<in> set [0..<n - 2]" and "(i', j') \<in> ?F i"
    then show "i' < n" by (auto split: if_splits)
  qed
  moreover have "(\<Union>i\<in>set [0..<n - 2]. ?F i) = {(i, j). computed_pair n bkpts i j}"
    by (auto simp: computed_pair_def split: if_splits)
  ultimately show ?thesis by simp
qed

subsection \<open>The construction returns when the fits do\<close>

lemma block_room:
  assumes "i \<le> j" and "j < n" and "\<forall>r. room n r \<le> length (blocks r)"
  shows "\<forall>r. region_count r n i j \<le> length (blocks r)"
proof
  fix r
  have "region_count r n i j \<le> room n r"
    by (rule region_count_capacity [OF assms(1,2)])
  with assms(3) show "region_count r n i j \<le> length (blocks r)"
    using le_trans by blast
qed

lemma fit_replicate_simulation:
  assumes ij: "i \<le> j" and jn: "j < n" and room: "roomy n s"
    and dblk: "\<forall>r. take (region_count r n i j) (t_d_blk s r) = region_values dis r n i j"
    and c: "i + j * n < length (t_llik s)"
    and k: "k < m" and obs: "replicates_ok obs n m"
  shows "map_option (\<lambda>t. (t_llik t ! (i + j * n), t_ab t)) (fit_replicate obs n i j k s) =
           (case rd obs k of
              None \<Rightarrow> None
            | Some mat \<Rightarrow>
                (case replicate_term mat dis n i j (t_ab s) of
                   None \<Rightarrow> None
                 | Some (e, ab') \<Rightarrow> Some (dadd (t_llik s ! (i + j * n)) e, ab')))"
    and "\<And>t. fit_replicate obs n i j k s = Some t \<Longrightarrow>
           roomy n t \<and> t_d_blk t = t_d_blk s \<and> length (t_llik t) = length (t_llik s)"
proof -
  let ?mat = "obs ! k"
  have mat: "rd obs k = Some ?mat" and len: "length ?mat = n * n"
    using k obs by (simp_all add: replicates_ok_def rd_def)
  have "\<forall>r. region_count r n i j \<le> length (t_k_blk s r)"
    using room by (intro block_room [OF ij jn]) (simp add: roomy_def)
  with ij jn len obtain seg where seg: "break_in_blocks ?mat n i j (t_k_blk s) = Some seg"
    using break_in_blocks_succeeds by blast
  have kblk: "take (region_count r n i j) (bufs seg r) = region_values ?mat r n i j" for r
    by (rule break_in_blocks_effect(4) [OF seg ij])
  have fit: "ml_ab (bufs seg r) (t_d_blk s r) ab (region_count r n i j) =
      fit_region ?mat dis r n i j ab" for r ab
    using kblk [of r] dblk by (intro ml_ab_region) simp_all
  have f0: "ml_ab (bufs seg Top) (t_d_blk s Top) ab (i * (j - i + 1)) =
      fit_region ?mat dis Top n i j ab" for ab
    using fit [of Top ab] by simp
  have f1: "ml_ab (bufs seg Tri) (t_d_blk s Tri) ab ((j - i) * (j - i + 1) div 2) =
      fit_region ?mat dis Tri n i j ab" for ab
    using fit [of Tri ab] by simp
  have f2: "ml_ab (bufs seg Bot) (t_d_blk s Bot) ab ((n - j - 1) * (j - i + 1)) =
      fit_region ?mat dis Bot n i j ab" for ab
    using fit [of Bot ab] by simp
  have unfolded: "fit_replicate obs n i j k s =
     (case fit_region ?mat dis Top n i j (t_ab s Top) of
        None \<Rightarrow> None
      | Some (top_fit, ab0) \<Rightarrow>
     (case fit_region ?mat dis Tri n i j (t_ab s Tri) of
        None \<Rightarrow> None
      | Some (tri_fit, ab1) \<Rightarrow>
     (case fit_region ?mat dis Bot n i j (t_ab s Bot) of
        None \<Rightarrow> None
      | Some (bot_fit, ab2) \<Rightarrow>
          Some (s\<lparr>t_k_blk := bufs seg,
                  t_ab := (t_ab s)(Top := ab0, Tri := ab1, Bot := ab2),
                  t_llik := (t_llik s)[i + j * n :=
                     dadd (t_llik s ! (i + j * n))
                          (dadd (dadd (ddiv top_fit (Fin 2)) tri_fit)
                                (ddiv bot_fit (Fin 2)))]\<rparr>))))"
    by (simp only: fit_replicate_def mat seg option.case f0 f1 f2)
  show "map_option (\<lambda>t. (t_llik t ! (i + j * n), t_ab t)) (fit_replicate obs n i j k s) =
           (case rd obs k of
              None \<Rightarrow> None
            | Some mat \<Rightarrow>
                (case replicate_term mat dis n i j (t_ab s) of
                   None \<Rightarrow> None
                 | Some (e, ab') \<Rightarrow> Some (dadd (t_llik s ! (i + j * n)) e, ab')))"
    using c by (simp add: unfolded replicate_term_def mat split: option.splits)
  fix t
  assume "fit_replicate obs n i j k s = Some t"
  then obtain e ab' where t: "t = s\<lparr>t_k_blk := bufs seg, t_ab := ab', t_llik := (t_llik s)[i + j * n := e]\<rparr>"
    by (auto simp: unfolded split: option.splits)
  have "length (bufs seg r) = length (t_k_blk s r)" for r
    by (rule break_in_blocks_effect(2) [OF seg ij])
  with room show "roomy n t \<and> t_d_blk t = t_d_blk s \<and> length (t_llik t) = length (t_llik s)"
    by (simp add: t roomy_def)
qed

lemma segment_pair_simulation:
  assumes ij: "i \<le> j" and jn: "j < n" and room: "roomy n s"
    and c: "i + j * n < length (t_llik s)"
    and obs: "replicates_ok obs n m" and dis: "length dis = n * n"
  shows "map_option (\<lambda>t. (t_llik t, t_ab t)) (segment_pair obs dis n m i j s) =
           (case entry_by_spec obs dis n m i j (t_ab s) of
              None \<Rightarrow> None
            | Some (v, ab') \<Rightarrow> Some ((t_llik s)[i + j * n := v], ab'))"
    and "\<And>t. segment_pair obs dis n m i j s = Some t \<Longrightarrow>
           roomy n t \<and> length (t_llik t) = length (t_llik s)"
proof -
  let ?c = "i + j * n"
  have "\<forall>r. region_count r n i j \<le> length (t_d_blk s r)"
    using room by (intro block_room [OF ij jn]) (simp add: roomy_def)
  with ij jn dis obtain seg where seg: "break_in_blocks dis n i j (t_d_blk s) = Some seg"
    using break_in_blocks_succeeds by blast
  let ?s1 = "s\<lparr>t_d_blk := bufs seg, t_llik := (t_llik s)[?c := Fin 0]\<rparr>"
  let ?Inv = "\<lambda>u. roomy n u \<and> t_d_blk u = bufs seg \<and> length (t_llik u) = length (t_llik s)"
  let ?abs = "\<lambda>t. (t_llik t ! ?c, t_ab t)"
  let ?body = "\<lambda>k (acc, ab). case rd obs k of
                 None \<Rightarrow> None
               | Some mat \<Rightarrow>
                   (case replicate_term mat dis n i j ab of
                      None \<Rightarrow> None
                    | Some (e, ab') \<Rightarrow> Some (dadd acc e, ab'))"
  have lseg: "length (bufs seg r) = length (t_d_blk s r)" for r
    by (rule break_in_blocks_effect(2) [OF seg ij])
  have inv1: "?Inv ?s1"
    using room lseg by (simp add: roomy_def)
  have dvals: "\<forall>r. take (region_count r n i j) (bufs seg r) = region_values dis r n i j"
    using break_in_blocks_effect(4) [OF seg ij] by simp
  have sim: "map_option ?abs (for_each [0..<m] (fit_replicate obs n i j) ?s1) =
               for_each [0..<m] ?body (?abs ?s1) \<and>
             (\<forall>t. for_each [0..<m] (fit_replicate obs n i j) ?s1 = Some t \<longrightarrow> ?Inv t)"
  proof (rule for_each_simulation [where Inv = ?Inv, OF inv1])
    fix k u
    assume k: "k \<in> set [0..<m]" and u: "?Inv u"
    have "map_option ?abs (fit_replicate obs n i j k u) =
           (case rd obs k of
              None \<Rightarrow> None
            | Some mat \<Rightarrow>
                (case replicate_term mat dis n i j (t_ab u) of
                   None \<Rightarrow> None
                 | Some (e, ab') \<Rightarrow> Some (dadd (t_llik u ! ?c) e, ab')))"
    proof (rule fit_replicate_simulation(1) [OF ij jn _ _ _ _ obs])
      show "roomy n u" using u by simp
      show "\<forall>r. take (region_count r n i j) (t_d_blk u r) = region_values dis r n i j"
        using u dvals by simp
      show "i + j * n < length (t_llik u)" using u c by simp
      show "k < m" using k by simp
    qed
    then show "map_option ?abs (fit_replicate obs n i j k u) = ?body k (?abs u)"
      by simp
  next
    fix k u v
    assume k: "k \<in> set [0..<m]" and u: "?Inv u" and v: "fit_replicate obs n i j k u = Some v"
    have "roomy n v \<and> t_d_blk v = t_d_blk u \<and> length (t_llik v) = length (t_llik u)"
    proof (rule fit_replicate_simulation(2) [OF ij jn _ _ _ _ obs v])
      show "roomy n u" using u by simp
      show "\<forall>r. take (region_count r n i j) (t_d_blk u r) = region_values dis r n i j"
        using u dvals by simp
      show "i + j * n < length (t_llik u)" using u c by simp
      show "k < m" using k by simp
    qed
    with u show "?Inv v" by simp
  qed
  have seg_eq: "segment_pair obs dis n m i j s = for_each [0..<m] (fit_replicate obs n i j) ?s1"
    by (simp add: segment_pair_def seg)
  have spec_eq: "for_each [0..<m] ?body (?abs ?s1) = entry_by_spec obs dis n m i j (t_ab s)"
    using c by (simp add: entry_by_spec_def)
  show "map_option (\<lambda>t. (t_llik t, t_ab t)) (segment_pair obs dis n m i j s) =
           (case entry_by_spec obs dis n m i j (t_ab s) of
              None \<Rightarrow> None
            | Some (v, ab') \<Rightarrow> Some ((t_llik s)[?c := v], ab'))"
  proof (cases "segment_pair obs dis n m i j s")
    case None
    with sim seg_eq spec_eq show ?thesis by (simp split: option.splits)
  next
    case (Some t)
    from segment_pair_effect [OF Some ij c] have
      "t_llik t = (t_llik s)[?c := t_llik t ! ?c]" by blast
    moreover have "entry_by_spec obs dis n m i j (t_ab s) = Some (t_llik t ! ?c, t_ab t)"
    proof -
      have "for_each [0..<m] (fit_replicate obs n i j) ?s1 = Some t"
        using Some seg_eq by simp
      then have "for_each [0..<m] ?body (?abs ?s1) = Some (?abs t)"
        using conjunct1 [OF sim] by simp
      then show ?thesis unfolding spec_eq .
    qed
    ultimately show ?thesis using Some by simp
  qed
  fix t
  assume "segment_pair obs dis n m i j s = Some t"
  with sim seg_eq show "roomy n t \<and> length (t_llik t) = length (t_llik s)" by simp
qed

lemma likelihood_matrix_simulation:
  assumes room: "roomy n s" and len: "length (t_llik s) = n * n"
    and obs: "replicates_ok obs n m" and dis: "length dis = n * n"
  shows "map_option (\<lambda>t. (t_llik t, t_ab t)) (likelihood_matrix obs dis n m bkpts s) =
         matrix_by_spec obs dis n m bkpts (t_llik s, t_ab s)"
proof -
  let ?Inv = "\<lambda>u. roomy n u \<and> length (t_llik u) = n * n"
  let ?abs = "\<lambda>t. (t_llik t, t_ab t)"
  let ?inner = "\<lambda>i j (llik, ab).
                   if computed_pair n bkpts i j
                   then (case entry_by_spec obs dis n m i j ab of
                           None \<Rightarrow> None
                         | Some (v, ab') \<Rightarrow> Some (llik[i + j * n := v], ab'))
                   else Some (llik, ab)"
  have inner: "map_option ?abs (scan_end_points obs dis n m bkpts i u) =
                 for_each [i + 2..<n] (?inner i) (?abs u) \<and>
               (\<forall>t. scan_end_points obs dis n m bkpts i u = Some t \<longrightarrow> ?Inv t)"
    if i: "i \<in> set [0..<n - 2]" and u: "?Inv u" and cand: "\<not> (0 < i \<and> bkpts ! (i - 1) \<noteq> 1)" for i u
  proof -
    have "map_option ?abs (for_each [i + 2..<n]
             (\<lambda>j t. if bkpts ! j \<noteq> 1 then Some t else segment_pair obs dis n m i j t) u) =
           for_each [i + 2..<n] (?inner i) (?abs u) \<and>
          (\<forall>t. for_each [i + 2..<n]
             (\<lambda>j t. if bkpts ! j \<noteq> 1 then Some t else segment_pair obs dis n m i j t) u = Some t
             \<longrightarrow> ?Inv t)"
    proof (rule for_each_simulation [where Inv = ?Inv, OF u])
      fix j v
      assume j: "j \<in> set [i + 2..<n]" and v: "?Inv v"
      have ij: "i \<le> j" and jn: "j < n" using j by simp_all
      have c: "i + j * n < length (t_llik v)"
        using v i jn by (simp add: cell_less)
      have cp: "computed_pair n bkpts i j \<longleftrightarrow> bkpts ! j = 1"
        using i j cand by (auto simp: computed_pair_def)
      show "map_option ?abs (if bkpts ! j \<noteq> 1 then Some v else segment_pair obs dis n m i j v) =
            ?inner i j (?abs v)"
        using segment_pair_simulation(1) [OF ij jn _ c obs dis] v cp by simp
    next
      fix j v w
      assume j: "j \<in> set [i + 2..<n]" and v: "?Inv v"
        and w: "(if bkpts ! j \<noteq> 1 then Some v else segment_pair obs dis n m i j v) = Some w"
      have ij: "i \<le> j" and jn: "j < n" using j by simp_all
      have c: "i + j * n < length (t_llik v)"
        using v i jn by (simp add: cell_less)
      show "?Inv w"
      proof (cases "bkpts ! j = 1")
        case False
        with w v show ?thesis by simp
      next
        case True
        with w have "segment_pair obs dis n m i j v = Some w" by simp
        from segment_pair_simulation(2) [OF ij jn _ c obs dis this] v show ?thesis by simp
      qed
    qed
    then show ?thesis by (simp add: scan_end_points_def)
  qed
  have skip: "for_each [i + 2..<n] (?inner i) start = Some start"
    if "0 < i \<and> bkpts ! (i - 1) \<noteq> 1" for i and start :: "double list \<times> (region \<Rightarrow> double \<times> double)"
  proof -
    have "for_each js (?inner i) start = Some start" for js
    proof (induction js)
      case Nil
      then show ?case by simp
    next
      case (Cons j js)
      have "\<not> computed_pair n bkpts i j" using that by (simp add: computed_pair_def)
      then have "?inner i j start = Some start" by (cases start) simp
      with Cons show ?case by simp
    qed
    then show ?thesis .
  qed
  have "map_option ?abs (for_each [0..<n - 2]
           (\<lambda>i t. if 0 < i \<and> bkpts ! (i - 1) \<noteq> 1 then Some t
                  else scan_end_points obs dis n m bkpts i t) s) =
         for_each [0..<n - 2] (\<lambda>i. for_each [i + 2..<n] (?inner i)) (?abs s) \<and>
        (\<forall>t. for_each [0..<n - 2]
           (\<lambda>i t. if 0 < i \<and> bkpts ! (i - 1) \<noteq> 1 then Some t
                  else scan_end_points obs dis n m bkpts i t) s = Some t \<longrightarrow> ?Inv t)"
  proof (rule for_each_simulation [where Inv = ?Inv])
    show "?Inv s" using room len by simp
  next
    fix i u
    assume i: "i \<in> set [0..<n - 2]" and u: "?Inv u"
    show "map_option ?abs (if 0 < i \<and> bkpts ! (i - 1) \<noteq> 1 then Some u
                  else scan_end_points obs dis n m bkpts i u) =
          for_each [i + 2..<n] (?inner i) (?abs u)"
    proof (cases "0 < i \<and> bkpts ! (i - 1) \<noteq> 1")
      case True
      with skip [OF True, of "?abs u"] show ?thesis by simp
    next
      case False
      from conjunct1 [OF inner [OF i u False]] False show ?thesis by auto
    qed
  next
    fix i u v
    assume i: "i \<in> set [0..<n - 2]" and u: "?Inv u"
      and v: "(if 0 < i \<and> bkpts ! (i - 1) \<noteq> 1 then Some u
                  else scan_end_points obs dis n m bkpts i u) = Some v"
    show "?Inv v"
    proof (cases "0 < i \<and> bkpts ! (i - 1) \<noteq> 1")
      case True
      with v u show ?thesis by simp
    next
      case False
      with v have "scan_end_points obs dis n m bkpts i u = Some v" by (simp split: if_splits)
      with inner [OF i u False] show ?thesis by simp
    qed
  qed
  then show ?thesis
    by (simp add: likelihood_matrix_def matrix_by_spec_def)
qed

subsection \<open>A run that returns\<close>

text \<open>
  One replicate of dimension 3 with the count 1 in every cell: the only entry is
  \<open>(0, 2)\<close>, its top and bottom regions are empty, and the fit of the triangular
  region has converged at the start \<open>(0, 0)\<close>.
\<close>

lemma distance_matrix_3: "distance_matrix 3 = [Fin 0, Fin 1, Fin 2, Fin 1, Fin 0, Fin 1, Fin 2, Fin 1, Fin 0]"
  by (simp add: distance_matrix_def upt_rec numeral_eq_Suc)

lemma region_3_0_2: "region_cells Tri 3 0 2 = [3, 6, 7]" "region_count Tri 3 0 2 = 3"
  "region_count Top 3 0 2 = 0" "region_count Bot 3 0 2 = 0"
  by (simp_all add: region_cells_def upt_rec)

lemma ml_ab_ones: "ml_ab [Fin 1, Fin 1, Fin 1] [Fin 1, Fin 2, Fin 1] (Fin 0, Fin 0) 3
   = Some (Fin 3, Fin 0, Fin 0)"
proof -
  let ?k = "[Fin 1, Fin 1, Fin 1]" and ?d = "[Fin 1, Fin 2, Fin 1]"
  let ?s = "\<lparr>ml_a = Fin 0, ml_b = Fin 0, ml_da = Fin 0, ml_db = Fin 0, ml_f = Fin 0, ml_g = Fin 0\<rparr>"
  have fg: "recompute_fg ?k ?d 3 ?s = Some ?s"
    by (simp add: recompute_fg_def rd_def dsub_def Let_def upt_rec)
  have "\<not> dgt (gradient ?s) TOLERANCE"
    by (simp add: gradient_def TOLERANCE_def dgt_def)
  then have nr: "newton_raphson ?k ?d 3 ?s = Some ?s"
    by (rule newton_raphson_converged)
  have ll: "log_likelihood ?k ?d 3 ?s = Some (Fin 3)"
    by (simp add: log_likelihood_def rd_def Let_def upt_rec)
  show ?thesis
    by (simp add: ml_ab_def fg nr ll)
qed

lemma likelihood_matrix_example: "\<exists>t. likelihood_matrix [replicate 9 (Fin 1)]
     (distance_matrix 3) 3 1 [1, 1, 1]
     \<lparr>t_llik = replicate 9 NaN, t_d_blk = (\<lambda>r. replicate 6 (Fin 0)),
      t_k_blk = (\<lambda>r. replicate 6 (Fin 0)), t_ab = (\<lambda>r. (Fin 0, Fin 0))\<rparr> = Some t"
proof -
  let ?obs = "[replicate 9 (Fin 1)]" and ?dis = "distance_matrix 3"
  let ?B = "\<lambda>r::region. replicate 6 (Fin 0)"
  let ?s = "\<lparr>t_llik = replicate 9 NaN, t_d_blk = ?B, t_k_blk = ?B, t_ab = (\<lambda>r. (Fin 0, Fin 0))\<rparr>"
  have cap: "\<forall>r. region_count r 3 0 2 \<le> length (?B r)"
  proof
    fix r show "region_count r 3 0 2 \<le> length (?B r)" by (cases r) simp_all
  qed
  obtain segd where segd: "break_in_blocks ?dis 3 0 2 ?B = Some segd"
    using break_in_blocks_succeeds [of 0 2 3 ?dis ?B] cap by (auto simp: distance_matrix_3)
  obtain segk where segk: "break_in_blocks (replicate 9 (Fin 1)) 3 0 2 ?B = Some segk"
    using break_in_blocks_succeeds [of 0 2 3 "replicate 9 (Fin 1)" ?B] cap by auto
  have le: "(0::nat) \<le> 2" by simp
  note ed = break_in_blocks_effect [OF segd le]
  note ek = break_in_blocks_effect [OF segk le]
  have fit: "ml_ab (bufs segk r) (bufs segd r) ab (region_count r 3 0 2) =
      fit_region (replicate 9 (Fin 1)) ?dis r 3 0 2 ab" for r ab
    using ed(4) [of r] ek(4) [of r] by (intro ml_ab_region) simp_all
  have "fit_region (replicate 9 (Fin 1)) ?dis Tri 3 0 2 (Fin 0, Fin 0) = Some (Fin 3, Fin 0, Fin 0)"
    by (simp add: fit_region_def region_values_def region_3_0_2 distance_matrix_3 ml_ab_ones)
  then have f1: "ml_ab (bufs segk Tri) (bufs segd Tri) (Fin 0, Fin 0) 3 =
      Some (Fin 3, Fin 0, Fin 0)"
    using fit [of Tri "(Fin 0, Fin 0)"] by (simp add: region_3_0_2)
  let ?s1 = "?s\<lparr>t_d_blk := bufs segd, t_llik := (t_llik ?s)[0 + 2 * 3 := Fin 0]\<rparr>"
  have "\<exists>t. fit_replicate ?obs 3 0 2 0 ?s1 = Some t"
    by (simp add: fit_replicate_def rd_def segk ml_ab_no_data f1 cong: option.case_cong)
  then have "\<exists>t. segment_pair ?obs ?dis 3 1 0 2 ?s = Some t"
    by (auto simp: segment_pair_def segd)
  then obtain t where t: "segment_pair ?obs ?dis 3 1 0 2 ?s = Some t" ..
  have u: "[0 + 2..<3] = [2::nat]" by (simp add: upt_rec)
  have "scan_end_points ?obs ?dis 3 1 [1, 1, 1] 0 ?s = Some t"
    unfolding scan_end_points_def u using t by simp
  then show ?thesis
    by (simp add: likelihood_matrix_def)
qed

subsection \<open>The result of the orchestrator\<close>

lemma tadbit_result:
  assumes "tadbit obs n m fast d_junk k_junk p_junk l_junk = Some r"
  shows "\<exists>llik. length llik = n * n \<and> r = get_breakpoints (uninitialised l_junk n) llik n"
proof -
  from assms obtain bkpts k_blk1 d_blk1 s where
    run: "likelihood_matrix obs (distance_matrix n) n m bkpts
            \<lparr>t_llik = replicate (n * n) NaN, t_d_blk = d_blk1, t_k_blk = k_blk1,
             t_ab = (\<lambda>r. (Fin 0, Fin 0))\<rparr> = Some s"
    and r: "r = get_breakpoints (uninitialised l_junk n) (t_llik s) n"
    unfolding tadbit_def Let_def by (auto split: option.splits)
  from likelihood_matrix_stores [OF run] have "length (t_llik s) = n * n"
    by (simp add: stores_def)
  with r show ?thesis by blast
qed

section \<open>The claims\<close>

subsection \<open>C1: the shape of the returned sequence\<close>

text \<open>
  C1 says that the sequence returned by \<^verbatim>\<open>get_breakpoints\<close> (and so by
  \<^verbatim>\<open>tadbit\<close>, which returns it unchanged) has length \<open>n\<close>, holds only 0 and 1,
  and holds 1 at position \<open>n - 1\<close>. The first two parts hold. The last one fails:
  the function only ever marks the end of the previous segment, which lies before
  the end point of the list it is marked in, so the cell for position \<open>n - 1\<close> in
  the list of end point \<open>n - 1\<close> is never set. For a 6 by 6 likelihood matrix in
  which splitting after position 2 improves the total, the result marks position 2
  and leaves position 5 at 0.
\<close>

theorem get_breakpoints_last_counterexample:
  "get_breakpoints [NaN, NaN, NaN, NaN, NaN, NaN]
     ((replicate 36 NaN)[12 := Fin 1, 30 := Fin 1, 33 := Fin 1]) 6 = [0, 0, 1, 0, 0, 0] \<and>
   get_breakpoints [NaN, NaN, NaN, NaN, NaN, NaN]
     ((replicate 36 NaN)[12 := Fin 1, 30 := Fin 1, 33 := Fin 1]) 6 ! (6 - 1) \<noteq> 1"
proof -
  let ?L = "(replicate 36 NaN)[12 := Fin 1, 30 := Fin 1, 33 := Fin 1]"
  let ?B = "(replicate 36 (0::int))[17 := 1]"
  let ?s0 = "\<lparr>nbreaks = 0, new_breakpoint = 0, new_llik = [NaN, NaN, NaN, NaN, NaN, NaN],
      old_llik = [NaN, NaN, Fin 1, NaN, NaN, Fin 1],
      new_bkpt_list = replicate 36 0, old_bkpt_list = replicate 36 0,
      new_full_llik = Fin 1, old_full_llik = NInf\<rparr>"
  let ?s1 = "\<lparr>nbreaks = Suc 0, new_breakpoint = 2, new_llik = [NaN, NaN, NaN, NaN, NaN, Fin 2],
      old_llik = [NaN, NaN, NaN, NaN, NaN, Fin 2],
      new_bkpt_list = ?B, old_bkpt_list = replicate 36 0,
      new_full_llik = Fin 2, old_full_llik = Fin 1\<rparr>"
  let ?s2 = "\<lparr>nbreaks = 2, new_breakpoint = 2, new_llik = [NaN, NaN, NaN, NaN, NaN, Fin 2],
      old_llik = [NaN, NaN, NaN, NaN, NaN, Fin 2],
      new_bkpt_list = ?B, old_bkpt_list = ?B,
      new_full_llik = Fin 2, old_full_llik = Fin 2\<rparr>"
  have init: "dp_init [NaN, NaN, NaN, NaN, NaN, NaN] ?L 6 = ?s0"
    by (simp add: dp_init_def Let_def upt_rec)
  have B: "(replicate 36 (0::int))[5 := 0, 11 := 0, 17 := 0, 23 := 0, 29 := 0, 35 := 0, 17 := 1] = ?B"
    by (simp add: numeral_eq_Suc)
  have r1: "dp_round ?L 6 ?s0 = ?s1"
    apply (simp add: dp_round_def Let_def copy_cells_all set_all_cells end_point_eq update_list_eq
        upt_rec best_step_def candidate_def dgt_def B)
    apply (simp add: copy_cells_def)
    done
  have r2: "dp_round ?L 6 ?s1 = ?s2"
    by (simp add: dp_round_def Let_def copy_cells_all set_all_cells)
  have l2: "dp_loop ?L 6 ?s2 = ?s2"
    by (subst dp_loop.simps) simp
  have l1: "dp_loop ?L 6 ?s1 = ?s2"
    by (subst dp_loop.simps) (simp add: r2 l2)
  have "dp_loop ?L 6 ?s0 = ?s2"
    by (subst dp_loop.simps) (simp add: r1 l1)
  then have "get_breakpoints [NaN, NaN, NaN, NaN, NaN, NaN] ?L 6 = [0, 0, 1, 0, 0, 0]"
    by (simp add: get_breakpoints_def init upt_rec)
  then show ?thesis by simp
qed

text \<open>
  C1 as amended: for \<open>n \<ge> 1\<close>, an \<open>n * n\<close> likelihood matrix and any content of the
  uninitialised array, the sequence returned by \<^verbatim>\<open>get_breakpoints\<close> has length \<open>n\<close>,
  every entry is 0 or 1, and the entry at position \<open>n - 1\<close> is 0; and so has every
  sequence that \<^verbatim>\<open>tadbit\<close> returns.
\<close>

theorem get_breakpoints_shape:
  assumes "1 \<le> n" and "length llik = n * n" and "length junk = n"
  shows "length (get_breakpoints junk llik n) = n \<and>
         (\<forall>x\<in>set (get_breakpoints junk llik n). x = 0 \<or> x = 1) \<and>
         get_breakpoints junk llik n ! (n - 1) = 0 \<and>
         (\<forall>r. tadbit obs n m fast d_junk k_junk p_junk l_junk = Some r \<longrightarrow>
            length r = n \<and> (\<forall>x\<in>set r. x = 0 \<or> x = 1) \<and> r ! (n - 1) = 0)"
proof -
  have shape: "length (get_breakpoints junk llik n) = n \<and>
         (\<forall>x\<in>set (get_breakpoints junk llik n). x = 0 \<or> x = 1) \<and>
         get_breakpoints junk llik n ! (n - 1) = 0"
    if junk: "length junk = n" for junk llik
  proof -
    let ?s = "dp_loop llik n (dp_init junk llik n)"
    have "dp_inv n ?s"
      using junk by (intro loop_inv init_inv)
    then have ok: "bkpt_ok n (old_bkpt_list ?s)"
      by (simp add: dp_inv_def)
    have cell: "old_bkpt_list ?s ! (n - 1 + i * n) = 0 \<or>
                (old_bkpt_list ?s ! (n - 1 + i * n) = 1 \<and> i < n - 1)" if "i < n" for i
    proof -
      have "n - 1 < n" using assms(1) by simp
      with ok that show ?thesis unfolding bkpt_ok_def by blast
    qed
    have len: "length (get_breakpoints junk llik n) = n"
      by (simp add: get_breakpoints_def Let_def)
    have vals: "\<forall>x\<in>set (get_breakpoints junk llik n). x = 0 \<or> x = 1"
    proof
      fix x
      assume "x \<in> set (get_breakpoints junk llik n)"
      then obtain i where "i < n" and "x = old_bkpt_list ?s ! (n - 1 + i * n)"
        by (auto simp: get_breakpoints_def Let_def)
      with cell [of i] show "x = 0 \<or> x = 1" by blast
    qed
    have "get_breakpoints junk llik n ! (n - 1) = old_bkpt_list ?s ! (n - 1 + (n - 1) * n)"
      using assms(1) by (simp add: get_breakpoints_def Let_def)
    with cell [of "n - 1"] assms(1) have "get_breakpoints junk llik n ! (n - 1) = 0"
      by auto
    with len vals show ?thesis by simp
  qed
  have "length r = n \<and> (\<forall>x\<in>set r. x = 0 \<or> x = 1) \<and> r ! (n - 1) = 0"
    if "tadbit obs n m fast d_junk k_junk p_junk l_junk = Some r" for r
  proof -
    from tadbit_result [OF that] obtain matrix where
      r: "r = get_breakpoints (uninitialised l_junk n) matrix n"
      by blast
    have "length (uninitialised l_junk n) = n"
      by (simp add: uninitialised_def)
    from shape [OF this, of matrix] show ?thesis
      by (simp add: r)
  qed
  with shape [OF assms(3), of llik] show ?thesis by blast
qed

theorem get_breakpoints_shape_witness:
  "(1::nat) \<le> 6 \<and>
   length ((replicate 36 NaN)[12 := Fin 1, 30 := Fin 1, 33 := Fin (1::real)]) = 6 * 6 \<and>
   length [NaN, NaN, NaN, NaN, NaN, NaN] = 6 \<and>
   length (get_breakpoints [NaN, NaN, NaN, NaN, NaN, NaN]
     ((replicate 36 NaN)[12 := Fin 1, 30 := Fin 1, 33 := Fin 1]) 6) = 6 \<and>
   get_breakpoints [NaN, NaN, NaN, NaN, NaN, NaN]
     ((replicate 36 NaN)[12 := Fin 1, 30 := Fin 1, 33 := Fin 1]) 6 ! (6 - 1) = 0"
  using get_breakpoints_shape [of 6 "(replicate 36 NaN)[12 := Fin 1, 30 := Fin 1, 33 := Fin 1]"
      "[NaN, NaN, NaN, NaN, NaN, NaN]"]
  by simp

subsection \<open>C2: what round \<open>k\<close> of the dynamic program computes\<close>

text \<open>
  C2: in round \<open>k \<ge> 1\<close> of \<^verbatim>\<open>get_breakpoints\<close>, with \<open>s\<close> the state before the
  round and \<open>s'\<close> the state after it,
  \<^item> only the scores of the end points \<open>j\<close> with \<open>3k + 2 \<le> j \<le> n - 1\<close> are computed:
    every other cell of \<^verbatim>\<open>new_llik\<close> keeps its content;
  \<^item> the score of such an end point is the maximum of
    \<^verbatim>\<open>old_llik[i-1] + llik[i+j*n]\<close> over \<open>3k \<le> i \<le> j - 2\<close>: no candidate compares
    greater, and the score is one of the candidates that compare greater than
    \<open>-\<infinity>\<close> (so it is never the sentinel), or it is \<open>-\<infinity>\<close> when no candidate
    compares greater than \<open>-\<infinity>\<close>;
  \<^item> the old scores are the scores of round \<open>k - 1\<close> (the first column of the
    likelihood matrix when \<open>k = 1\<close>), and the scores of round \<open>k\<close> become the old
    scores of round \<open>k + 1\<close>;
  \<^item> the loop goes on to round \<open>k + 1\<close> exactly when the previous total compares
    less than the new score of position \<open>n - 1\<close>, and stops in the state \<open>s'\<close>
    otherwise.
\<close>

theorem dp_round_maximum:
  assumes "length junk = n" and "1 \<le> k"
    and "s = dp_after junk llik n (k - 1)" and "s' = dp_after junk llik n k"
  shows "(\<forall>j. \<not> (3 * k + 2 \<le> j \<and> j < n) \<longrightarrow> new_llik s' ! j = new_llik s ! j) \<and>
         (\<forall>j. 3 * k + 2 \<le> j \<and> j < n \<longrightarrow>
            (\<forall>i. 3 * k \<le> i \<and> i \<le> j - 2 \<longrightarrow>
               \<not> dgt (dadd (old_llik s ! (i - 1)) (llik ! (i + j * n))) (new_llik s' ! j)) \<and>
            (new_llik s' ! j = NInf \<or>
             (\<exists>i. 3 * k \<le> i \<and> i \<le> j - 2 \<and>
                new_llik s' ! j = dadd (old_llik s ! (i - 1)) (llik ! (i + j * n)) \<and>
                dgt (dadd (old_llik s ! (i - 1)) (llik ! (i + j * n))) NInf))) \<and>
         (k = 1 \<longrightarrow> (\<forall>j<n. old_llik s ! j = llik ! (j * n))) \<and>
         (1 < k \<longrightarrow> old_llik s = new_llik s) \<and>
         old_llik s' = new_llik s' \<and>
         dp_loop llik n s' =
           (if dlt (new_full_llik s) (new_llik s' ! (n - 1))
            then dp_loop llik n (dp_after junk llik n (k + 1)) else s')"
proof -
  have facts: "length (new_llik s) = n" "length (old_llik s) = n" "nbreaks s = k - 1"
    using after_lengths [OF assms(1), of llik "k - 1"] assms(3) by simp_all
  have step: "s' = dp_round llik n s"
    using assms(2,3,4) by (cases k) (simp_all add: dp_after_def)
  have nb: "nbreaks s + 1 = k" using facts(3) assms(2) by simp
  have score: "new_llik s' ! j =
      (if 3 * k + 2 \<le> j \<and> j < n
       then best_score (candidate llik n (old_llik s) j) [3 * k..<j - 1]
       else new_llik s ! j)" for j
    using round_scores(2) [OF facts(1), of llik j] unfolding nb step by simp
  have p1: "\<forall>j. \<not> (3 * k + 2 \<le> j \<and> j < n) \<longrightarrow> new_llik s' ! j = new_llik s ! j"
    by (simp add: score)
  have p2: "\<forall>j. 3 * k + 2 \<le> j \<and> j < n \<longrightarrow>
            (\<forall>i. 3 * k \<le> i \<and> i \<le> j - 2 \<longrightarrow>
               \<not> dgt (dadd (old_llik s ! (i - 1)) (llik ! (i + j * n))) (new_llik s' ! j)) \<and>
            (new_llik s' ! j = NInf \<or>
             (\<exists>i. 3 * k \<le> i \<and> i \<le> j - 2 \<and>
                new_llik s' ! j = dadd (old_llik s ! (i - 1)) (llik ! (i + j * n)) \<and>
                dgt (dadd (old_llik s ! (i - 1)) (llik ! (i + j * n))) NInf))"
  proof (intro allI impI)
    fix j
    assume j: "3 * k + 2 \<le> j \<and> j < n"
    let ?tmp = "candidate llik n (old_llik s) j"
    let ?is = "[3 * k..<j - 1]"
    have r: "new_llik s' ! j = best_score ?tmp ?is"
      using j by (simp add: score)
    have mem: "i \<in> set ?is \<longleftrightarrow> 3 * k \<le> i \<and> i \<le> j - 2" for i
      using j by auto
    have up: "\<forall>i. 3 * k \<le> i \<and> i \<le> j - 2 \<longrightarrow>
               \<not> dgt (dadd (old_llik s ! (i - 1)) (llik ! (i + j * n))) (new_llik s' ! j)"
      using best_score_upper [of _ ?is ?tmp] mem
      by (simp add: r candidate_def)
    have "best_score ?tmp ?is = NInf \<or>
        (\<exists>i\<in>set ?is. best_score ?tmp ?is = ?tmp i \<and> dgt (?tmp i) NInf)"
      by (rule best_score_cases)
    then have att: "new_llik s' ! j = NInf \<or>
             (\<exists>i. 3 * k \<le> i \<and> i \<le> j - 2 \<and>
                new_llik s' ! j = dadd (old_llik s ! (i - 1)) (llik ! (i + j * n)) \<and>
                dgt (dadd (old_llik s ! (i - 1)) (llik ! (i + j * n))) NInf)"
      using mem unfolding r candidate_def by blast
    from up att show "(\<forall>i. 3 * k \<le> i \<and> i \<le> j - 2 \<longrightarrow>
               \<not> dgt (dadd (old_llik s ! (i - 1)) (llik ! (i + j * n))) (new_llik s' ! j)) \<and>
            (new_llik s' ! j = NInf \<or>
             (\<exists>i. 3 * k \<le> i \<and> i \<le> j - 2 \<and>
                new_llik s' ! j = dadd (old_llik s ! (i - 1)) (llik ! (i + j * n)) \<and>
                dgt (dadd (old_llik s ! (i - 1)) (llik ! (i + j * n))) NInf))"
      by simp
  qed
  have p3: "k = 1 \<longrightarrow> (\<forall>j<n. old_llik s ! j = llik ! (j * n))"
    using assms(3) by (simp add: dp_after_def dp_init_def Let_def)
  have p4: "1 < k \<longrightarrow> old_llik s = new_llik s"
  proof
    assume "1 < k"
    then obtain m where m: "k - 1 = Suc m" by (cases k) (auto simp: gr0_conv_Suc)
    let ?u = "dp_after junk llik n m"
    have "length (new_llik ?u) = n" "length (old_llik ?u) = n"
      using after_lengths [OF assms(1), of llik m] by simp_all
    then have "old_llik (dp_round llik n ?u) = new_llik (dp_round llik n ?u)"
      by (rule round_old_llik)
    then show "old_llik s = new_llik s"
      using assms(3) m by (simp add: dp_after_def)
  qed
  have p5: "old_llik s' = new_llik s'"
    unfolding step by (rule round_old_llik [OF facts(1,2)])
  have next_round: "dp_round llik n s' = dp_after junk llik n (k + 1)"
    using assms(4) by (simp add: dp_after_def)
  have p6: "dp_loop llik n s' =
           (if dlt (new_full_llik s) (new_llik s' ! (n - 1))
            then dp_loop llik n (dp_after junk llik n (k + 1)) else s')"
    by (subst dp_loop.simps) (simp add: step next_round [unfolded step])
  from p1 p2 p3 p4 p5 p6 show ?thesis by blast
qed

theorem dp_round_maximum_witness:
  "length [NaN, NaN, NaN, NaN, NaN, NaN] = 6 \<and> (1::nat) \<le> 1 \<and>
   old_llik (dp_after [NaN, NaN, NaN, NaN, NaN, NaN]
     ((replicate 36 NaN)[12 := Fin 1, 30 := Fin 1, 33 := Fin 1]) 6 1) =
   new_llik (dp_after [NaN, NaN, NaN, NaN, NaN, NaN]
     ((replicate 36 NaN)[12 := Fin 1, 30 := Fin 1, 33 := Fin 1]) 6 1)"
  using dp_round_maximum [of "[NaN, NaN, NaN, NaN, NaN, NaN]" 6 1
      "dp_after [NaN, NaN, NaN, NaN, NaN, NaN]
         ((replicate 36 NaN)[12 := Fin 1, 30 := Fin 1, 33 := Fin 1]) 6 (1 - 1)"
      "(replicate 36 NaN)[12 := Fin 1, 30 := Fin 1, 33 := Fin 1]"
      "dp_after [NaN, NaN, NaN, NaN, NaN, NaN]
         ((replicate 36 NaN)[12 := Fin 1, 30 := Fin 1, 33 := Fin 1]) 6 1"]
  by simp

subsection \<open>C3: the result of the fit\<close>


text \<open>
  C3 as amended. Whenever \<^verbatim>\<open>ml_ab\<close> returns, on any input,
  \<^item> \<open>F\<close> and \<open>G\<close> at the pair \<open>(a, b)\<close> it leaves in \<^verbatim>\<open>ab\<close> are such that
    \<open>F\<^sup>2 + G\<^sup>2\<close> does not compare greater than \<open>10\<^sup>-\<^sup>6\<close>;
  \<^item> the value it returns is the sum of \<open>exp (a + b d\<^sub>i) + k\<^sub>i (a + b d\<^sub>i)\<close> at this
    pair;
  \<^item> if the counts, the distances and the start pair are finite and two of the
    distances differ, then the pair it leaves is finite, \<open>F\<close> and \<open>G\<close> are finite
    there and \<open>F\<^sup>2 + G\<^sup>2 \<le> 10\<^sup>-\<^sup>6\<close>.
\<close>

theorem ml_ab_converged:
  assumes "ml_ab k d ab n = Some (llik, a', b')"
  shows "(\<exists>F G. score_F k d n a' b' = Some F \<and> score_G k d n a' b' = Some G \<and>
            \<not> dgt (dadd (dmul F F) (dmul G G)) TOLERANCE) \<and>
         loglik_sum k d n a' b' = Some llik \<and>
         ((\<forall>i<n. is_fin (k ! i) \<and> is_fin (d ! i)) \<and> is_fin (fst ab) \<and> is_fin (snd ab) \<and>
          (\<exists>i<n. \<exists>j<n. d ! i \<noteq> d ! j) \<longrightarrow>
            (\<exists>x y. score_F k d n a' b' = Some (Fin x) \<and> score_G k d n a' b' = Some (Fin y) \<and>
                   x * x + y * y \<le> 1 / 1000000) \<and>
            is_fin a' \<and> is_fin b')"
proof -
  from ml_ab_returned [OF assms] have
    "\<exists>F G. score_F k d n a' b' = Some F \<and> score_G k d n a' b' = Some G \<and>
            \<not> dgt (dadd (dmul F F) (dmul G G)) TOLERANCE"
    and "loglik_sum k d n a' b' = Some llik"
    by blast+
  moreover have "(\<exists>x y. score_F k d n a' b' = Some (Fin x) \<and> score_G k d n a' b' = Some (Fin y) \<and>
                   x * x + y * y \<le> 1 / 1000000) \<and> is_fin a' \<and> is_fin b'"
    if "(\<forall>i<n. is_fin (k ! i) \<and> is_fin (d ! i)) \<and> is_fin (fst ab) \<and> is_fin (snd ab) \<and>
          (\<exists>i<n. \<exists>j<n. d ! i \<noteq> d ! j)"
    using ml_ab_finite [OF assms] that by blast
  ultimately show ?thesis by blast
qed

theorem ml_ab_converged_witness:
  "ml_ab [Fin 1, Fin 1, Fin 1] [Fin 1, Fin 2, Fin 1] (Fin 0, Fin 0) 3 =
     Some (Fin 3, Fin 0, Fin 0) \<and>
   loglik_sum [Fin 1, Fin 1, Fin 1] [Fin 1, Fin 2, Fin 1] 3 (Fin 0) (Fin 0) = Some (Fin 3) \<and>
   (\<exists>x y. score_F [Fin 1, Fin 1, Fin 1] [Fin 1, Fin 2, Fin 1] 3 (Fin 0) (Fin 0) = Some (Fin x) \<and>
          score_G [Fin 1, Fin 1, Fin 1] [Fin 1, Fin 2, Fin 1] 3 (Fin 0) (Fin 0) = Some (Fin y) \<and>
          x * x + y * y \<le> 1 / 1000000)"
proof -
  let ?k = "[Fin 1, Fin 1, Fin 1]" and ?d = "[Fin 1, Fin 2, Fin 1]"
  have run: "ml_ab ?k ?d (Fin 0, Fin 0) 3 = Some (Fin 3, Fin 0, Fin 0)"
    by (rule ml_ab_ones)
  have data: "\<forall>i<3. is_fin (?k ! i) \<and> is_fin (?d ! i)"
    by (simp add: numeral_3_eq_3 less_Suc_eq)
  have "?d ! 0 \<noteq> ?d ! 1" by simp
  then have two: "\<exists>i<3. \<exists>j<3. ?d ! i \<noteq> ?d ! j"
    by (intro exI [of _ 0] exI [of _ 1] conjI) simp_all
  have start: "is_fin (fst (Fin 0, Fin 0)) \<and> is_fin (snd (Fin 0, Fin 0))" by simp
  from ml_ab_converged [OF run] data two start run show ?thesis
    by blast
qed

subsection \<open>C4: the entries of the likelihood matrix\<close>

text \<open>
  C4: for \<open>m\<close> replicates and a distance matrix of \<open>n * n\<close> cells each and blocks of
  the allocated capacities, the construction of the likelihood matrix (lines 358 to
  383) does what the design says. It returns exactly when the fits of the design
  return (a fit is a loop without a bound, so it need not), and then with the same
  matrix and the same parameter pairs. When it returns,
  \<^item> for every pair \<open>(i, j)\<close> with \<open>0 \<le> i \<le> n - 3\<close>, \<open>i + 2 \<le> j \<le> n - 1\<close> and both
    \<open>i - 1\<close> and \<open>j\<close> candidates (\<open>i = 0\<close> needs no candidate), the cell
    \<open>i + j * n\<close> holds the sum over the \<open>m\<close> replicates of half the fit of the top
    region, the fit of the triangular region and half the fit of the bottom region
    of the replicate segmented at \<open>(i, j)\<close>, the fits of the first replicate
    starting from some parameter pairs \<open>ab\<close>;
  \<^item> every cell that belongs to no such pair is as it was before.
\<close>

theorem likelihood_matrix_entries:
  assumes "replicates_ok obs n m" and "length dis = n * n"
    and "length (t_llik s) = n * n" and "roomy n s"
  shows "map_option (\<lambda>t. (t_llik t, t_ab t)) (likelihood_matrix obs dis n m bkpts s) =
           matrix_by_spec obs dis n m bkpts (t_llik s, t_ab s) \<and>
         (\<forall>t. likelihood_matrix obs dis n m bkpts s = Some t \<longrightarrow>
            (\<forall>i j. computed_pair n bkpts i j \<longrightarrow>
               (\<exists>ab ab'. entry_by_spec obs dis n m i j ab = Some (t_llik t ! (i + j * n), ab'))) \<and>
            (\<forall>c. (\<forall>i j. computed_pair n bkpts i j \<longrightarrow> c \<noteq> i + j * n) \<longrightarrow>
               t_llik t ! c = t_llik s ! c))"
proof -
  have "map_option (\<lambda>t. (t_llik t, t_ab t)) (likelihood_matrix obs dis n m bkpts s) =
           matrix_by_spec obs dis n m bkpts (t_llik s, t_ab s)"
    using assms(4,3,1,2) by (rule likelihood_matrix_simulation)
  moreover have "(\<forall>i j. computed_pair n bkpts i j \<longrightarrow>
               (\<exists>ab ab'. entry_by_spec obs dis n m i j ab = Some (t_llik t ! (i + j * n), ab'))) \<and>
            (\<forall>c. (\<forall>i j. computed_pair n bkpts i j \<longrightarrow> c \<noteq> i + j * n) \<longrightarrow>
               t_llik t ! c = t_llik s ! c)"
    if "likelihood_matrix obs dis n m bkpts s = Some t" for t
    using likelihood_matrix_stores [OF that assms(3)] by (simp add: stores_def)
  ultimately show ?thesis by blast
qed

theorem likelihood_matrix_entries_witness:
  "replicates_ok [replicate 9 (Fin 1)] 3 1 \<and> length (distance_matrix 3) = 3 * 3 \<and>
   length (replicate 9 NaN) = 3 * 3 \<and>
   roomy 3 \<lparr>t_llik = replicate 9 NaN, t_d_blk = (\<lambda>r. replicate 6 (Fin 0)),
            t_k_blk = (\<lambda>r. replicate 6 (Fin 0)), t_ab = (\<lambda>r. (Fin 0, Fin 0))\<rparr> \<and>
   (\<exists>t. likelihood_matrix [replicate 9 (Fin 1)] (distance_matrix 3) 3 1 [1, 1, 1]
           \<lparr>t_llik = replicate 9 NaN, t_d_blk = (\<lambda>r. replicate 6 (Fin 0)),
            t_k_blk = (\<lambda>r. replicate 6 (Fin 0)), t_ab = (\<lambda>r. (Fin 0, Fin 0))\<rparr> = Some t \<and>
        (\<exists>ab ab'. entry_by_spec [replicate 9 (Fin 1)] (distance_matrix 3) 3 1 0 2 ab =
           Some (t_llik t ! (0 + 2 * 3), ab')))"
proof -
  let ?s = "\<lparr>t_llik = replicate 9 NaN, t_d_blk = (\<lambda>r. replicate 6 (Fin 0)),
            t_k_blk = (\<lambda>r. replicate 6 (Fin 0)), t_ab = (\<lambda>r. (Fin 0, Fin 0))\<rparr>"
  obtain t where t: "likelihood_matrix [replicate 9 (Fin 1)] (distance_matrix 3) 3 1 [1, 1, 1] ?s
      = Some t"
    using likelihood_matrix_example by blast
  have obs: "replicates_ok [replicate 9 (Fin 1)] 3 1"
    by (simp add: replicates_ok_def)
  have dis: "length (distance_matrix 3) = 3 * 3"
    by (simp add: distance_matrix_3)
  have len: "length (t_llik ?s) = 3 * 3" by simp
  have room: "roomy 3 ?s"
    unfolding roomy_def
  proof (intro conjI allI)
    fix r
    show "room 3 r \<le> length (t_d_blk ?s r)" by (cases r) simp_all
    show "room 3 r \<le> length (t_k_blk ?s r)" by (cases r) simp_all
  qed
  have pair: "computed_pair 3 [1, 1, 1] 0 2" by (simp add: computed_pair_def)
  from likelihood_matrix_entries [OF obs dis len room, of "[1, 1, 1]"] t pair
  have "\<exists>ab ab'. entry_by_spec [replicate 9 (Fin 1)] (distance_matrix 3) 3 1 0 2 ab =
           Some (t_llik t ! (0 + 2 * 3), ab')"
    by blast
  with t obs dis room show ?thesis by auto
qed

subsection \<open>C5: the writes of one call of the segmenter\<close>

text \<open>
  C5: for an \<open>n\<close> by \<open>n\<close> matrix, cut indices \<open>0 \<le> i < j \<le> n - 1\<close> and output
  arrays large enough for the three counts, a call of \<^verbatim>\<open>break_in_blocks\<close> returns,
  and
  \<^item> the positions written in the top block are \<open>0, 1, \<dots>\<close> up to
    \<open>i * (j - i + 1)\<close> (excluded), each once and in this order; those of the
    triangular block go up to \<open>(j - i) * (j - i + 1) / 2\<close> and those of the bottom
    block up to \<open>(n - j - 1) * (j - i + 1)\<close>, and the three counters end at these
    counts;
  \<^item> no cell of the matrix is copied twice, into whichever block: the cells read
    by the writes of the call are pairwise different;
  \<^item> the written prefix of each block holds the values of its region, column by
    column.
\<close>

theorem break_in_blocks_writes:
  assumes "i < j" and "j < n" and "length mat = n * n"
    and "i * (j - i + 1) \<le> length (blocks Top)"
    and "(j - i) * (j - i + 1) div 2 \<le> length (blocks Tri)"
    and "(n - j - 1) * (j - i + 1) \<le> length (blocks Bot)"
  shows "\<exists>t. break_in_blocks mat n i j blocks = Some t \<and>
           map (\<lambda>w. fst (snd w)) (filter (\<lambda>w. fst w = Top) (writes t)) =
             [0..<i * (j - i + 1)] \<and>
           map (\<lambda>w. fst (snd w)) (filter (\<lambda>w. fst w = Tri) (writes t)) =
             [0..<(j - i) * (j - i + 1) div 2] \<and>
           map (\<lambda>w. fst (snd w)) (filter (\<lambda>w. fst w = Bot) (writes t)) =
             [0..<(n - j - 1) * (j - i + 1)] \<and>
           counter t Top = i * (j - i + 1) \<and>
           counter t Tri = (j - i) * (j - i + 1) div 2 \<and>
           counter t Bot = (n - j - 1) * (j - i + 1) \<and>
           distinct (map (\<lambda>w. snd (snd w)) (writes t)) \<and>
           (\<forall>r. take (counter t r) (bufs t r) = region_values mat r n i j)"
proof -
  have ij: "i \<le> j" using assms(1) by simp
  have "\<forall>r. region_count r n i j \<le> length (blocks r)"
  proof
    fix r
    show "region_count r n i j \<le> length (blocks r)"
      using assms(4,5,6) by (cases r) simp_all
  qed
  with ij assms(2,3) obtain t where t: "break_in_blocks mat n i j blocks = Some t"
    using break_in_blocks_succeeds by blast
  note e = break_in_blocks_effect [OF t ij]
  have "distinct (map (\<lambda>w. snd (snd w)) (writes t))"
    using distinct_cmds [OF assms(2), of i] by (simp add: e(5))
  moreover have "map (\<lambda>w. fst (snd w)) (filter (\<lambda>w. fst w = r) (writes t)) =
      [0..<region_count r n i j]" for r
    using e(6) [of r] by (simp add: of_region_def)
  moreover have "\<forall>r. take (counter t r) (bufs t r) = region_values mat r n i j"
    using e(1,4) by simp
  ultimately show ?thesis
    using t e(1) [of Top] e(1) [of Tri] e(1) [of Bot] by simp
qed

theorem break_in_blocks_writes_witness:
  "(1::nat) < 2 \<and> (2::nat) < 4 \<and> length [0..<16] = 4 * 4 \<and>
   (\<exists>t. break_in_blocks [0..<16] 4 1 2 (\<lambda>r. replicate 6 (0::nat)) = Some t \<and>
        counter t Top = 2 \<and> counter t Tri = 1 \<and> counter t Bot = 2)"
  using break_in_blocks_writes [of 1 2 4 "[0..<16]" "\<lambda>r. replicate 6 (0::nat)"]
  by auto

subsection \<open>C6: the fit of an empty sequence\<close>

text \<open>
  C6: called with the length 0, \<^verbatim>\<open>ml_ab\<close> returns the log-likelihood 0 and leaves
  the pair \<^verbatim>\<open>ab\<close> as it was, whatever the two arrays are. In the model a read
  outside an array makes the call fail, so the result for the empty arrays shows
  that no element is read.
\<close>

theorem ml_ab_empty:
  "ml_ab k d ab 0 = Some (Fin 0, ab) \<and> ml_ab [] [] ab 0 = Some (Fin 0, ab)"
proof -
  have "ml_ab k d ab 0 = Some (Fin 0, ab)" for k d
  proof -
    let ?s = "\<lparr>ml_a = fst ab, ml_b = snd ab, ml_da = Fin 0, ml_db = Fin 0,
              ml_f = Fin 0, ml_g = Fin 0\<rparr>"
    have fg: "recompute_fg k d 0 ?s = Some ?s"
      by (simp add: recompute_fg_def)
    have "\<not> dgt (gradient ?s) TOLERANCE"
      by (simp add: gradient_def TOLERANCE_def dgt_def)
    then have nr: "newton_raphson k d 0 ?s = Some ?s"
      by (subst newton_raphson.simps) simp
    have ll: "log_likelihood k d 0 ?s = Some (Fin 0)"
      by (simp add: log_likelihood_def)
    show ?thesis
      by (simp add: ml_ab_def fg nr ll)
  qed
  then show ?thesis by simp
qed

subsection \<open>C7: the candidate mask\<close>




subsection \<open>C8: the cells that are not computed\<close>

text \<open>
  C8: the likelihood matrix starts with the sentinel in each of its \<open>n * n\<close> cells.
  When its construction returns,
  \<^item> every cell that belongs to no computed pair still holds the sentinel, in
    particular every cell \<open>(i, j)\<close> with \<open>j < i + 2\<close> (the lower triangle, the diagonal
    and the first diagonal above it);
  \<^item> every cell holds the sentinel or the complete sum over the \<open>m\<close> replicates of a
    computed pair: no cell is left with a part of its sum.
\<close>

theorem uncomputed_entries_keep_sentinel:
  assumes "likelihood_matrix obs dis n m bkpts s = Some t" and "t_llik s = replicate (n * n) NaN"
  shows "length (t_llik t) = n * n \<and>
         (\<forall>c<n * n. (\<forall>i j. computed_pair n bkpts i j \<longrightarrow> c \<noteq> i + j * n) \<longrightarrow>
            t_llik t ! c = NaN) \<and>
         (\<forall>i j. i < n \<and> j < n \<and> j < i + 2 \<longrightarrow> t_llik t ! (i + j * n) = NaN) \<and>
         (\<forall>c<n * n. t_llik t ! c = NaN \<or>
            (\<exists>i j ab ab'. computed_pair n bkpts i j \<and> c = i + j * n \<and>
               entry_by_spec obs dis n m i j ab = Some (t_llik t ! c, ab')))"
proof -
  have len: "length (t_llik s) = n * n" using assms(2) by simp
  note st = likelihood_matrix_stores [OF assms(1) len, unfolded stores_def]
  have p1: "length (t_llik t) = n * n" using st len by simp
  have p2: "\<forall>c<n * n. (\<forall>i j. computed_pair n bkpts i j \<longrightarrow> c \<noteq> i + j * n) \<longrightarrow>
            t_llik t ! c = NaN"
    using st assms(2) by simp
  have p3: "\<forall>i j. i < n \<and> j < n \<and> j < i + 2 \<longrightarrow> t_llik t ! (i + j * n) = NaN"
  proof (intro allI impI)
    fix i j
    assume a: "i < n \<and> j < n \<and> j < i + 2"
    have "\<forall>i' j'. computed_pair n bkpts i' j' \<longrightarrow> i + j * n \<noteq> i' + j' * n"
    proof (intro allI impI)
      fix i' j'
      assume c: "computed_pair n bkpts i' j'"
      then have "i' < n" "i' + 2 \<le> j'" by (simp_all add: computed_pair_def)
      with a cell_inj [of i n i' j j'] show "i + j * n \<noteq> i' + j' * n" by auto
    qed
    moreover have "i + j * n < n * n" using a by (simp add: cell_less)
    ultimately show "t_llik t ! (i + j * n) = NaN" using p2 by blast
  qed
  have p4: "\<forall>c<n * n. t_llik t ! c = NaN \<or>
            (\<exists>i j ab ab'. computed_pair n bkpts i j \<and> c = i + j * n \<and>
               entry_by_spec obs dis n m i j ab = Some (t_llik t ! c, ab'))"
  proof (intro allI impI)
    fix c
    assume c: "c < n * n"
    show "t_llik t ! c = NaN \<or>
            (\<exists>i j ab ab'. computed_pair n bkpts i j \<and> c = i + j * n \<and>
               entry_by_spec obs dis n m i j ab = Some (t_llik t ! c, ab'))"
    proof (cases "\<forall>i j. computed_pair n bkpts i j \<longrightarrow> c \<noteq> i + j * n")
      case True
      with p2 c show ?thesis by simp
    next
      case False
      then obtain i j where ij: "computed_pair n bkpts i j" and e: "c = i + j * n" by blast
      from st ij obtain ab ab' where
        "entry_by_spec obs dis n m i j ab = Some (t_llik t ! (i + j * n), ab')"
        by blast
      with ij e show ?thesis by blast
    qed
  qed
  from p1 p2 p3 p4 show ?thesis by simp
qed

theorem uncomputed_entries_keep_sentinel_witness:
  "\<exists>t. likelihood_matrix [replicate 9 (Fin 1)] (distance_matrix 3) 3 1 [1, 1, 1]
          \<lparr>t_llik = replicate (3 * 3) NaN, t_d_blk = (\<lambda>r. replicate 6 (Fin 0)),
           t_k_blk = (\<lambda>r. replicate 6 (Fin 0)), t_ab = (\<lambda>r. (Fin 0, Fin 0))\<rparr> = Some t \<and>
       length (t_llik t) = 3 * 3 \<and> t_llik t ! (1 + 2 * 3) = NaN"
proof -
  let ?s = "\<lparr>t_llik = replicate (3 * 3) NaN, t_d_blk = (\<lambda>r. replicate 6 (Fin 0)),
            t_k_blk = (\<lambda>r. replicate 6 (Fin 0)), t_ab = (\<lambda>r. (Fin 0, Fin 0))\<rparr>"
  obtain t where t: "likelihood_matrix [replicate 9 (Fin 1)] (distance_matrix 3) 3 1 [1, 1, 1] ?s
      = Some t"
    using likelihood_matrix_example by auto
  have init: "t_llik ?s = replicate (3 * 3) NaN" by simp
  note res = uncomputed_entries_keep_sentinel [OF t init]
  from res have l: "length (t_llik t) = 3 * 3" by blast
  from res have "\<forall>i j. i < 3 \<and> j < 3 \<and> j < i + 2 \<longrightarrow> t_llik t ! (i + j * 3) = NaN"
    by blast
  then have "(1::nat) < 3 \<and> (2::nat) < 3 \<and> (2::nat) < 1 + 2 \<longrightarrow> t_llik t ! (1 + 2 * 3) = NaN"
    by blast
  then have "t_llik t ! (1 + 2 * 3) = NaN" by simp
  with t l show ?thesis by blast
qed

subsection \<open>C9: the block buffers are large enough\<close>

text \<open>
  C9: as long as \<open>(n + 1)\<^sup>2\<close> fits an \<^verbatim>\<open>int\<close>, the sizes that \<^verbatim>\<open>tadbit\<close> computes for
  its blocks are \<open>(n + 1) * (n + 1) / 4\<close> for the top and the bottom block and
  \<open>n * (n + 1) / 2\<close> for the triangular block (integer division), and with blocks
  of these sizes every call of the segmenter with \<open>0 \<le> i < j \<le> n - 1\<close> stays inside
  the buffers: the three write counts are at most the sizes, the call returns (a
  write outside a buffer would make it fail), every position it writes lies below
  the size of its buffer, and the buffers keep their sizes for the next call.
  Without the bound on \<open>n\<close> the computation of the sizes overflows (lemma
  \<open>block_capacity_overflow\<close>).
\<close>

theorem blocks_large_enough:
  assumes "i < j" and "j < n" and "length mat = n * n"
    and "(n + 1) * (n + 1) \<le> INT_MAX"
    and "\<forall>r. block_capacity n r = Some (length (blocks r))"
  shows "block_capacity n Top = Some ((n + 1) * (n + 1) div 4) \<and>
         block_capacity n Tri = Some (n * (n + 1) div 2) \<and>
         block_capacity n Bot = Some ((n + 1) * (n + 1) div 4) \<and>
         i * (j - i + 1) \<le> (n + 1) * (n + 1) div 4 \<and>
         (j - i) * (j - i + 1) div 2 \<le> n * (n + 1) div 2 \<and>
         (n - j - 1) * (j - i + 1) \<le> (n + 1) * (n + 1) div 4 \<and>
         (\<exists>t. break_in_blocks mat n i j blocks = Some t \<and>
              (\<forall>w\<in>set (writes t). fst (snd w) < length (blocks (fst w))) \<and>
              (\<forall>r. block_capacity n r = Some (length (bufs t r))))"
proof -
  have ij: "i \<le> j" using assms(1) by simp
  note cap = region_count_capacity [OF ij assms(2)]
  have len: "length (blocks r) = room n r" for r
    using assms(5) block_capacity_in_range [OF assms(4), of r] by simp
  have "\<forall>r. region_count r n i j \<le> length (blocks r)"
    using cap by (simp add: len)
  with ij assms(2,3) obtain t where t: "break_in_blocks mat n i j blocks = Some t"
    using break_in_blocks_succeeds by blast
  have "\<forall>w\<in>set (writes t). fst (snd w) < length (blocks (fst w))"
  proof
    fix w
    assume "w \<in> set (writes t)"
    then have "w \<in> set (of_region (fst w) (writes t))"
      by (simp add: of_region_def)
    then have "fst (snd w) \<in> set (map (\<lambda>w. fst (snd w)) (of_region (fst w) (writes t)))"
      by simp
    then have "fst (snd w) < region_count (fst w) n i j"
      by (simp add: break_in_blocks_effect(6) [OF t ij])
    with cap [of "fst w"] show "fst (snd w) < length (blocks (fst w))" by (simp add: len)
  qed
  moreover have "\<forall>r. block_capacity n r = Some (length (bufs t r))"
    using break_in_blocks_effect(2) [OF t ij] assms(5) by simp
  moreover have "block_capacity n Top = Some ((n + 1) * (n + 1) div 4)"
    "block_capacity n Tri = Some (n * (n + 1) div 2)"
    "block_capacity n Bot = Some ((n + 1) * (n + 1) div 4)"
    by (simp_all only: block_capacity_in_range [OF assms(4)] room.simps)
  ultimately show ?thesis
    using t cap [of Top] cap [of Tri] cap [of Bot] by auto
qed

theorem blocks_large_enough_witness:
  "(1::nat) < 2 \<and> (2::nat) < 4 \<and> length [0..<16] = 4 * 4 \<and>
   (4 + 1) * (4 + 1) \<le> INT_MAX \<and>
   block_capacity 4 Top = Some 6 \<and> block_capacity 4 Tri = Some 10 \<and>
   block_capacity 4 Bot = Some 6 \<and>
   (1::nat) * (2 - 1 + 1) \<le> (4 + 1) * (4 + 1) div 4 \<and>
   (\<exists>t. break_in_blocks [0..<16] 4 1 2
          (\<lambda>r. replicate (case r of Top \<Rightarrow> 6 | Tri \<Rightarrow> 10 | Bot \<Rightarrow> 6) (0::nat)) = Some t)"
proof -
  have r: "\<forall>r. block_capacity 4 r =
      Some (length (replicate (case r of Top \<Rightarrow> 6 | Tri \<Rightarrow> 10 | Bot \<Rightarrow> 6) (0::nat)))"
  proof
    fix r
    show "block_capacity 4 r =
      Some (length (replicate (case r of Top \<Rightarrow> 6 | Tri \<Rightarrow> 10 | Bot \<Rightarrow> 6) (0::nat)))"
      by (cases r) (simp_all add: INT_MAX_def int_add_def int_mul_def)
  qed
  have m: "(4 + 1) * (4 + 1) \<le> INT_MAX" by (simp add: INT_MAX_def)
  have c: "block_capacity 4 Top = Some 6 \<and> block_capacity 4 Tri = Some 10 \<and>
      block_capacity 4 Bot = Some 6"
    by (simp add: INT_MAX_def int_add_def int_mul_def)
  from blocks_large_enough [of 1 2 4 "[0..<16]"
      "\<lambda>r. replicate (case r of Top \<Rightarrow> 6 | Tri \<Rightarrow> 10 | Bot \<Rightarrow> 6) (0::nat)", OF _ _ _ m r]
  have "\<exists>t. break_in_blocks [0..<16] 4 1 2
          (\<lambda>r. replicate (case r of Top \<Rightarrow> 6 | Tri \<Rightarrow> 10 | Bot \<Rightarrow> 6) (0::nat)) = Some t"
    by simp blast
  with m c show ?thesis by simp
qed

subsection \<open>C10: the sentinel never enters a retained solution\<close>

text \<open>
  C10: throughout the dynamic program,
  \<^item> a candidate sum that involves a sentinel, as the entry \<open>(i, j)\<close> of the
    likelihood matrix or as the old score of \<open>i - 1\<close>, never passes the comparison
    that guards the update of \<^verbatim>\<open>new_llik[j]\<close>: the loop body leaves the state as
    it is;
  \<^item> after every round \<open>k \<ge> 1\<close> and for every end point \<open>j\<close> of the round, the score
    \<^verbatim>\<open>new_llik[j]\<close> is not the sentinel, and it is \<open>-\<infinity>\<close> or a value built from
    entries of the likelihood matrix that are not the sentinel;
  \<^item> the body of the loop over \<open>j\<close> changes the breakpoint list only when the score
    it has found compares greater than \<open>-\<infinity>\<close>.
\<close>

theorem sentinel_never_retained:
  assumes "length junk = n" and "1 \<le> k"
  shows "(\<forall>s j i. llik ! (i + j * n) = NaN \<or> old_llik s ! (i - 1) = NaN \<longrightarrow>
            dp_try llik n j i s = s) \<and>
         (\<forall>j. 3 * k + 2 \<le> j \<and> j < n \<longrightarrow>
            new_llik (dp_after junk llik n k) ! j \<noteq> NaN \<and>
            (new_llik (dp_after junk llik n k) ! j = NInf \<or>
             built llik n k j (new_llik (dp_after junk llik n k) ! j))) \<and>
         (\<forall>s j. j < length (new_llik s) \<and>
                \<not> dgt (new_llik (dp_end_point llik n j s) ! j) NInf \<longrightarrow>
                new_bkpt_list (dp_end_point llik n j s) = new_bkpt_list s)"
proof -
  have guard: "\<forall>s j i. llik ! (i + j * n) = NaN \<or> old_llik s ! (i - 1) = NaN \<longrightarrow>
            dp_try llik n j i s = s"
    by (auto simp: dp_try_def dgt_def)
  have lists: "\<forall>s j. j < length (new_llik s) \<and>
                \<not> dgt (new_llik (dp_end_point llik n j s) ! j) NInf \<longrightarrow>
                new_bkpt_list (dp_end_point llik n j s) = new_bkpt_list s"
  proof (intro allI impI)
    fix s :: dp_state and j
    assume a: "j < length (new_llik s) \<and>
                \<not> dgt (new_llik (dp_end_point llik n j s) ! j) NInf"
    define r where "r = fold (best_step (candidate llik n (old_llik s) j)) [3 * nbreaks s..<j - 1]
                (NInf, new_breakpoint s)"
    let ?t = "s\<lparr>new_llik := (new_llik s)[j := fst r], new_breakpoint := snd r\<rparr>"
    have eq: "dp_end_point llik n j s = dp_update_list n j ?t"
      using end_point_eq [of j s llik n] a by (simp add: r_def Let_def)
    have "new_llik (dp_update_list n j ?t) ! j = fst r"
      using a by (simp add: update_list_eq)
    with a eq have "\<not> dgt (fst r) NInf" by simp
    then have "dp_update_list n j ?t = ?t"
      using a by (simp add: update_list_eq)
    with eq show "new_bkpt_list (dp_end_point llik n j s) = new_bkpt_list s"
      by simp
  qed
  have scores: "\<forall>j. 3 * k + 2 \<le> j \<and> j < n \<longrightarrow>
            new_llik (dp_after junk llik n k) ! j \<noteq> NaN \<and>
            (new_llik (dp_after junk llik n k) ! j = NInf \<or>
             built llik n k j (new_llik (dp_after junk llik n k) ! j))"
    using assms(2)
  proof (induction k rule: nat_induct_at_least)
    case base
    let ?s = "dp_after junk llik n 0"
    have len: "length (new_llik ?s) = n" and nb: "nbreaks ?s = 0"
      using after_lengths [OF assms(1), of llik 0] by simp_all
    have old: "old_llik ?s ! j = llik ! (j * n)" if "j < n" for j
      using that by (simp add: dp_after_def dp_init_def Let_def)
    have step: "dp_after junk llik n 1 = dp_round llik n ?s"
      by (simp add: dp_after_def)
    show ?case
    proof (intro allI impI)
      fix j
      assume j: "3 * 1 + 2 \<le> j \<and> j < n"
      let ?tmp = "candidate llik n (old_llik ?s) j"
      let ?is = "[3..<j - 1]"
      have r: "new_llik (dp_after junk llik n 1) ! j = best_score ?tmp ?is"
        using round_scores(2) [OF len, of llik j] j unfolding step nb by simp
      from best_score_cases [of ?tmp ?is]
      show "new_llik (dp_after junk llik n 1) ! j \<noteq> NaN \<and>
            (new_llik (dp_after junk llik n 1) ! j = NInf \<or>
             built llik n 1 j (new_llik (dp_after junk llik n 1) ! j))"
      proof
        assume "best_score ?tmp ?is = NInf"
        then show ?thesis unfolding r by simp
      next
        assume "\<exists>i\<in>set ?is. best_score ?tmp ?is = ?tmp i \<and> dgt (?tmp i) NInf"
        then obtain i where i: "3 \<le> i" "i < j - 1"
          and v: "best_score ?tmp ?is = ?tmp i" and g: "dgt (?tmp i) NInf"
          by auto
        have i1: "i - 1 < n" using i j by linarith
        have tmp: "?tmp i = dadd (llik ! ((i - 1) * n)) (llik ! (i + j * n))"
          unfolding candidate_def old [OF i1] by simp
        from g have nn: "?tmp i \<noteq> NaN" by (auto simp: dgt_def)
        then have "llik ! ((i - 1) * n) \<noteq> NaN" and e: "llik ! (i + j * n) \<noteq> NaN"
          using dadd_not_NaN [of "llik ! ((i - 1) * n)" "llik ! (i + j * n)"] by (simp_all add: tmp)
        then have "built llik n 0 (i - 1) (llik ! ((i - 1) * n))"
          by (intro built_first)
        then have "built llik n (Suc 0) j (dadd (llik ! ((i - 1) * n)) (llik ! (i + j * n)))"
          using e i by (intro built_next) simp_all
        with nn show ?thesis unfolding r v tmp by simp
      qed
    qed
  next
    case (Suc k)
    let ?s = "dp_after junk llik n k"
    have len: "length (new_llik ?s) = n" and olen: "length (old_llik ?s) = n"
      and nb: "nbreaks ?s = k"
      using after_lengths [OF assms(1), of llik k] by simp_all
    obtain m where m: "k = Suc m" using Suc.hyps by (cases k) auto
    have "old_llik (dp_round llik n (dp_after junk llik n m)) =
        new_llik (dp_round llik n (dp_after junk llik n m))"
      using after_lengths [OF assms(1), of llik m] by (intro round_old_llik) simp_all
    then have old: "old_llik ?s = new_llik ?s"
      by (simp add: m dp_after_def)
    have step: "dp_after junk llik n (Suc k) = dp_round llik n ?s"
      by (simp add: dp_after_def)
    show ?case
    proof (intro allI impI)
      fix j
      assume j: "3 * Suc k + 2 \<le> j \<and> j < n"
      let ?tmp = "candidate llik n (old_llik ?s) j"
      let ?is = "[3 * Suc k..<j - 1]"
      have r: "new_llik (dp_after junk llik n (Suc k)) ! j = best_score ?tmp ?is"
        using round_scores(2) [OF len, of llik j] j unfolding step nb by simp
      from best_score_cases [of ?tmp ?is]
      show "new_llik (dp_after junk llik n (Suc k)) ! j \<noteq> NaN \<and>
            (new_llik (dp_after junk llik n (Suc k)) ! j = NInf \<or>
             built llik n (Suc k) j (new_llik (dp_after junk llik n (Suc k)) ! j))"
      proof
        assume "best_score ?tmp ?is = NInf"
        then show ?thesis unfolding r by simp
      next
        assume "\<exists>i\<in>set ?is. best_score ?tmp ?is = ?tmp i \<and> dgt (?tmp i) NInf"
        then obtain i where i: "3 * Suc k \<le> i" "i < j - 1"
          and v: "best_score ?tmp ?is = ?tmp i" and g: "dgt (?tmp i) NInf"
          by auto
        have tmp: "?tmp i = dadd (new_llik ?s ! (i - 1)) (llik ! (i + j * n))"
          by (simp add: candidate_def old)
        from g have nn: "?tmp i \<noteq> NaN" by (auto simp: dgt_def)
        then have e: "llik ! (i + j * n) \<noteq> NaN"
          using dadd_not_NaN [of "new_llik ?s ! (i - 1)" "llik ! (i + j * n)"] by (simp add: tmp)
        have ni: "new_llik ?s ! (i - 1) \<noteq> NInf"
          using g dadd_NInf_left [of "new_llik ?s ! (i - 1)" "llik ! (i + j * n)"]
          by (simp add: tmp dgt_def)
        have "3 * k + 2 \<le> i - 1 \<and> i - 1 < n" using i j by auto
        with Suc.IH ni have "built llik n k (i - 1) (new_llik ?s ! (i - 1))"
          by blast
        then have "built llik n (Suc k) j (dadd (new_llik ?s ! (i - 1)) (llik ! (i + j * n)))"
          using e i by (intro built_next) simp_all
        with nn show ?thesis unfolding r v tmp by simp
      qed
    qed
  qed
  from guard scores lists show ?thesis by blast
qed

theorem sentinel_never_retained_witness:
  "length [NaN, NaN, NaN, NaN, NaN, NaN] = 6 \<and> (1::nat) \<le> 1 \<and>
   dp_try ((replicate 36 NaN)[12 := Fin 1, 30 := Fin 1, 33 := Fin 1]) 6 5 4
     (dp_init [NaN, NaN, NaN, NaN, NaN, NaN]
        ((replicate 36 NaN)[12 := Fin 1, 30 := Fin 1, 33 := Fin 1]) 6) =
   dp_init [NaN, NaN, NaN, NaN, NaN, NaN]
        ((replicate 36 NaN)[12 := Fin 1, 30 := Fin 1, 33 := Fin 1]) 6"
  using sentinel_never_retained [of "[NaN, NaN, NaN, NaN, NaN, NaN]" 6 1
      "(replicate 36 NaN)[12 := Fin 1, 30 := Fin 1, 33 := Fin 1]"]
  by simp

end
